theory Spec2Isabelle
  imports Complex_Main "HOL-Library.AList" "HOL-Library.Code_Target_Nat"
begin

chapter \<open>The model\<close>

section \<open>JavaScript values and errors\<close>

text \<open>
  The collections handled by the repository are parsed JSON. A JSON value is a tree;
  an object keeps its properties in property order (an association list whose keys are
  taken to be distinct, as \<^verbatim>\<open>JSON.parse\<close> produces them). \<open>JNum\<close> carries the
  integer-valued numbers whose decimal rendering has no exponent (magnitude below
  \<open>10^21\<close>). The value \<^verbatim>\<open>undefined\<close> is not a JSON value: a property read returns a
  \<open>json option\<close>, with \<open>None\<close> for \<^verbatim>\<open>undefined\<close>.
\<close>

datatype json =
    JNull
  | JBool bool
  | JNum int
  | JStr string
  | JArr "json list"
  | JObj "(string \<times> json) list"

text \<open>A thrown JavaScript \<^verbatim>\<open>Error\<close>, with its message.\<close>

datatype error = Error string

fun message :: "error \<Rightarrow> string" where
  "message (Error m) = m"

text \<open>Decimal rendering of numbers, as \<^verbatim>\<open>String(n)\<close> gives it for integers.\<close>

definition digitChar :: "nat \<Rightarrow> char" where
  "digitChar d = ''0123456789'' ! (d mod 10)"

function showNat :: "nat \<Rightarrow> string" where
  "showNat n = (if n < 10 then [digitChar n] else showNat (n div 10) @ [digitChar (n mod 10)])"
  by pat_completeness auto

termination
  by (relation "measure (\<lambda>n. n)") auto

declare showNat.simps [simp del]

definition showInt :: "int \<Rightarrow> string" where
  "showInt i = (if i < 0 then CHR ''-'' # showNat (nat (- i)) else showNat (nat i))"

text \<open>\<^verbatim>\<open>Array.prototype.join(sep)\<close> on strings already converted.\<close>

fun joinWith :: "string \<Rightarrow> string list \<Rightarrow> string" where
  "joinWith sep [] = []"
| "joinWith sep [s] = s"
| "joinWith sep (s # t # ss) = s @ sep @ joinWith sep (t # ss)"

text \<open>
  The string an element contributes to \<^verbatim>\<open>join\<close>: \<^verbatim>\<open>null\<close> gives the empty string,
  an array is joined with commas, an object prints as \<^verbatim>\<open>[object Object]\<close>.
\<close>

fun joinStr :: "json \<Rightarrow> string" where
  "joinStr JNull = []"
| "joinStr (JBool b) = (if b then ''true'' else ''false'')"
| "joinStr (JNum n) = showInt n"
| "joinStr (JStr s) = s"
| "joinStr (JArr xs) = joinWith '','' (map joinStr xs)"
| "joinStr (JObj kvs) = ''[object Object]''"

text \<open>Truthiness: \<^verbatim>\<open>!v\<close> holds of \<^verbatim>\<open>null\<close>, \<^verbatim>\<open>false\<close>, \<^verbatim>\<open>0\<close> and the empty string.\<close>

fun falsy :: "json \<Rightarrow> bool" where
  "falsy JNull = True"
| "falsy (JBool b) = (\<not> b)"
| "falsy (JNum n) = (n = 0)"
| "falsy (JStr s) = (s = [])"
| "falsy (JArr xs) = False"
| "falsy (JObj kvs) = False"

text \<open>
  Own enumerable properties, in the order of \<^verbatim>\<open>Object.keys\<close>: the properties of an
  object, the indices of an array. Primitive values have none here.
\<close>

fun entries :: "json \<Rightarrow> (string \<times> json) list" where
  "entries (JObj kvs) = kvs"
| "entries (JArr xs) = zip (map showNat [0 ..< length xs]) xs"
| "entries v = []"

definition objectKeys :: "json \<Rightarrow> string list" where
  "objectKeys v = map fst (entries v)"

text \<open>
  The property read \<^verbatim>\<open>v[name]\<close>. Besides own properties an array has \<^verbatim>\<open>length\<close>.
  Inherited properties (\<^verbatim>\<open>constructor\<close>, \<^verbatim>\<open>toString\<close>, the properties of string
  wrappers) are not JSON data and are not modelled: field names are taken not to name them.
\<close>

definition getProp :: "json \<Rightarrow> string \<Rightarrow> json option" where
  "getProp v name =
     (case map_of (entries v) name of
        Some x \<Rightarrow> Some x
      | None \<Rightarrow>
          (case v of
             JArr xs \<Rightarrow> if name = ''length'' then Some (JNum (int (length xs))) else None
           | _ \<Rightarrow> None))"

fun isObject :: "json \<Rightarrow> bool" where
  "isObject (JArr xs) = True"
| "isObject (JObj kvs) = True"
| "isObject v = False"

fun typeof :: "json option \<Rightarrow> string" where
  "typeof None = ''undefined''"
| "typeof (Some JNull) = ''object''"
| "typeof (Some (JBool b)) = ''boolean''"
| "typeof (Some (JNum n)) = ''number''"
| "typeof (Some (JStr s)) = ''string''"
| "typeof (Some (JArr xs)) = ''object''"
| "typeof (Some (JObj kvs)) = ''object''"

section \<open>ChangeDetector\<close>

text \<open>
  The effective options of a detector (\<^verbatim>\<open>this.options\<close>). A custom comparator is a
  caller's function: it returns a truth value or throws.
\<close>

record options =
  keyFields :: "string list"
  compareFunction :: "(json \<Rightarrow> json \<Rightarrow> error + bool) option"
  deepCompare :: bool
  ignoreFields :: "string list"

text \<open>
  The constructor: each argument is the caller's option or \<open>None\<close> when it is left out.
  An array is truthy, so a supplied \<open>keyFields\<close> is kept even when empty.
\<close>

definition newChangeDetector ::
  "string list option \<Rightarrow> (json \<Rightarrow> json \<Rightarrow> error + bool) option \<Rightarrow> bool option \<Rightarrow>
   string list option \<Rightarrow> options" where
  "newChangeDetector kf cf dc ig =
     \<lparr> keyFields = (case kf of Some k \<Rightarrow> k | None \<Rightarrow> [''id'']),
       compareFunction = cf,
       deepCompare = (dc \<noteq> Some False),
       ignoreFields = (case ig of Some i \<Rightarrow> i | None \<Rightarrow> [''last_updated'', ''generated_at'']) \<rparr>"

record fieldChange =
  field :: string
  oldValue :: "json option"
  newValue :: "json option"
  valueType :: string

record itemEntry =
  key :: string
  data :: json
  position :: int

record updatedEntry =
  u_key :: string
  u_old :: json
  u_new :: json
  u_changes :: "fieldChange list"
  u_position :: int

record summary =
  totalAdded :: nat
  totalUpdated :: nat
  totalRemoved :: nat
  totalUnchanged :: nat
  oldTotal :: nat
  newTotal :: nat

record changeSet =
  hasChanges :: bool
  added :: "itemEntry list"
  updated :: "updatedEntry list"
  removed :: "itemEntry list"
  unchanged :: "itemEntry list"
  summary :: summary
  error :: "string option"

text \<open>
  \<^verbatim>\<open>getItemKey\<close>: \<open>None\<close> is the \<^verbatim>\<open>null\<close> returned for a falsy item; otherwise the
  defined key fields joined with \<^verbatim>\<open>::\<close>.
\<close>

definition getItemKey :: "options \<Rightarrow> json \<Rightarrow> string option" where
  "getItemKey opts item =
     (if falsy item then None
      else Some (joinWith ''::'' (map joinStr (List.map_filter (getProp item) (keyFields opts)))))"

text \<open>
  \<^verbatim>\<open>buildDataMap\<close>: a JavaScript \<^verbatim>\<open>Map\<close> keeps its keys in the order of first
  insertion and \<^verbatim>\<open>set\<close> on a present key replaces the value in place, which is
  \<^const>\<open>AList.update\<close>. An item whose key is \<^verbatim>\<open>null\<close> or empty is skipped.
\<close>

fun buildDataMapFrom :: "options \<Rightarrow> (string \<times> json) list \<Rightarrow> json list \<Rightarrow> (string \<times> json) list" where
  "buildDataMapFrom opts m [] = m"
| "buildDataMapFrom opts m (item # items) =
     (case getItemKey opts item of
        None \<Rightarrow> buildDataMapFrom opts m items
      | Some k \<Rightarrow>
          if k \<noteq> [] then buildDataMapFrom opts (AList.update k item m) items
          else buildDataMapFrom opts m items)"

definition buildDataMap :: "options \<Rightarrow> json list \<Rightarrow> (string \<times> json) list" where
  "buildDataMap opts items = buildDataMapFrom opts [] items"

text \<open>
  \<^verbatim>\<open>a === b\<close>. On primitives it compares values. Two objects are strictly equal only
  when they are one object; the model has no object identity and answers \<open>False\<close>
  there, which leaves \<open>deepEqual\<close> unchanged: an object compared with itself passes the
  structural comparison as well.
\<close>

fun strictEq :: "json option \<Rightarrow> json option \<Rightarrow> bool" where
  "strictEq None None = True"
| "strictEq (Some a) (Some b) = (\<not> isObject a \<and> a = b)"
| "strictEq x y = False"

fun weight :: "json option \<Rightarrow> nat" where
  "weight None = 0"
| "weight (Some v) = Suc (size v)"

text \<open>
  \<^verbatim>\<open>deepEqual\<close>, on values that may be \<^verbatim>\<open>undefined\<close>. \<^verbatim>\<open>typeof null\<close> is
  \<^verbatim>\<open>object\<close> but the source excludes \<^verbatim>\<open>null\<close> by name; arrays are objects and are
  compared through their index keys. The loop over \<open>keys1\<close> stops at the first failure.
  Each recursive call is on a property of the first argument, a smaller value; the
  termination proof is in the second part.
\<close>

function deepEqual :: "string list \<Rightarrow> json option \<Rightarrow> json option \<Rightarrow> bool" where
  "deepEqual ign x y =
     (if strictEq x y then True
      else
        (case (x, y) of
           (Some a, Some b) \<Rightarrow>
             if \<not> isObject a \<or> \<not> isObject b then False
             else
               (let keys1 = filter (\<lambda>k. k \<notin> set ign) (objectKeys a);
                    keys2 = filter (\<lambda>k. k \<notin> set ign) (objectKeys b)
                in if length keys1 \<noteq> length keys2 then False
                   else list_all (\<lambda>k. k \<in> set keys2 \<and> deepEqual ign (getProp a k) (getProp b k)) keys1)
         | _ \<Rightarrow> False))"
  by pat_completeness auto

text \<open>
  \<^verbatim>\<open>areItemsEqual\<close>. Without deep comparison the source compares the two
  \<^verbatim>\<open>JSON.stringify\<close> texts; on JSON trees with ordered properties the text determines
  the tree, so the texts are equal exactly when the trees are.
\<close>

definition areItemsEqual :: "options \<Rightarrow> json \<Rightarrow> json \<Rightarrow> error + bool" where
  "areItemsEqual opts item1 item2 =
     (case compareFunction opts of
        Some f \<Rightarrow> f item1 item2
      | None \<Rightarrow>
          if deepCompare opts then Inr (deepEqual (ignoreFields opts) (Some item1) (Some item2))
          else Inr (item1 = item2))"

text \<open>The keys of a \<^verbatim>\<open>Set\<close> built from a list: first occurrences, in order.\<close>

fun dedupe :: "'a list \<Rightarrow> 'a list" where
  "dedupe [] = []"
| "dedupe (x # xs) = x # dedupe (filter (\<lambda>y. y \<noteq> x) xs)"

definition getSpecificChanges :: "options \<Rightarrow> json \<Rightarrow> json \<Rightarrow> fieldChange list" where
  "getSpecificChanges opts oldItem newItem =
     concat (map (\<lambda>k.
        if k \<in> set (ignoreFields opts) then []
        else if \<not> deepEqual (ignoreFields opts) (getProp oldItem k) (getProp newItem k)
        then [\<lparr> field = k, oldValue = getProp oldItem k, newValue = getProp newItem k,
                valueType = typeof (getProp oldItem k) \<rparr>]
        else [])
      (dedupe (objectKeys oldItem @ objectKeys newItem)))"

text \<open>\<^verbatim>\<open>findItemPosition\<close>: the first index whose item has the key, or \<open>-1\<close>.\<close>

fun findItemPositionFrom :: "options \<Rightarrow> int \<Rightarrow> json list \<Rightarrow> string \<Rightarrow> int" where
  "findItemPositionFrom opts i [] k = - 1"
| "findItemPositionFrom opts i (item # items) k =
     (if getItemKey opts item = Some k then i else findItemPositionFrom opts (i + 1) items k)"

definition findItemPosition :: "options \<Rightarrow> json list \<Rightarrow> string \<Rightarrow> int" where
  "findItemPosition opts items k = findItemPositionFrom opts 0 items k"

text \<open>
  The first loop of \<^verbatim>\<open>detectChanges\<close>, over the entries of the new map, mutating
  \<open>changes\<close>. A stored item is never falsy, but the source tests \<^verbatim>\<open>!oldItem\<close>, and so
  does the model. A comparator that throws ends the loop with the error.
\<close>

fun detectNew ::
  "options \<Rightarrow> (string \<times> json) list \<Rightarrow> json list \<Rightarrow> (string \<times> json) list \<Rightarrow> changeSet \<Rightarrow>
   error + changeSet" where
  "detectNew opts oldMap newData [] ch = Inr ch"
| "detectNew opts oldMap newData ((k, newItem) # rest) ch =
     (case map_of oldMap k of
        None \<Rightarrow>
          detectNew opts oldMap newData rest
            (ch\<lparr> added := added ch @
                    [\<lparr> key = k, data = newItem, position = findItemPosition opts newData k \<rparr>],
                 hasChanges := True \<rparr>)
      | Some oldItem \<Rightarrow>
          if falsy oldItem then
            detectNew opts oldMap newData rest
              (ch\<lparr> added := added ch @
                      [\<lparr> key = k, data = newItem, position = findItemPosition opts newData k \<rparr>],
                   hasChanges := True \<rparr>)
          else
            (case areItemsEqual opts oldItem newItem of
               Inl e \<Rightarrow> Inl e
             | Inr same \<Rightarrow>
                 if \<not> same then
                   detectNew opts oldMap newData rest
                     (ch\<lparr> updated := updated ch @
                             [\<lparr> u_key = k, u_old = oldItem, u_new = newItem,
                                u_changes = getSpecificChanges opts oldItem newItem,
                                u_position = findItemPosition opts newData k \<rparr>],
                          hasChanges := True \<rparr>)
                 else
                   detectNew opts oldMap newData rest
                     (ch\<lparr> unchanged := unchanged ch @
                             [\<lparr> key = k, data = newItem,
                                position = findItemPosition opts newData k \<rparr>] \<rparr>)))"

text \<open>The second loop, over the entries of the old map.\<close>

fun detectRemoved ::
  "options \<Rightarrow> (string \<times> json) list \<Rightarrow> json list \<Rightarrow> (string \<times> json) list \<Rightarrow> changeSet \<Rightarrow>
   changeSet" where
  "detectRemoved opts newMap oldData [] ch = ch"
| "detectRemoved opts newMap oldData ((k, oldItem) # rest) ch =
     (if map_of newMap k = None then
        detectRemoved opts newMap oldData rest
          (ch\<lparr> removed := removed ch @
                  [\<lparr> key = k, data = oldItem, position = findItemPosition opts oldData k \<rparr>],
               hasChanges := True \<rparr>)
      else detectRemoved opts newMap oldData rest ch)"

definition emptyChanges :: "json list \<Rightarrow> json list \<Rightarrow> changeSet" where
  "emptyChanges oldData newData =
     \<lparr> hasChanges = False, added = [], updated = [], removed = [], unchanged = [],
       summary = \<lparr> totalAdded = 0, totalUpdated = 0, totalRemoved = 0, totalUnchanged = 0,
                   oldTotal = length oldData, newTotal = length newData \<rparr>,
       error = None \<rparr>"

text \<open>
  \<^verbatim>\<open>detectChanges\<close>: the \<^verbatim>\<open>try\<close> block builds the two maps, runs the two loops and
  fills the summary; the \<^verbatim>\<open>catch\<close> block returns an empty change set that carries the
  error's message.
\<close>

definition detectChanges :: "options \<Rightarrow> json list \<Rightarrow> json list \<Rightarrow> changeSet" where
  "detectChanges opts oldData newData =
     (let changes = emptyChanges oldData newData;
          oldMap = buildDataMap opts oldData;
          newMap = buildDataMap opts newData
      in case detectNew opts oldMap newData newMap changes of
           Inl e \<Rightarrow> (emptyChanges oldData newData)\<lparr> error := Some (message e) \<rparr>
         | Inr ch1 \<Rightarrow>
             (let ch2 = detectRemoved opts newMap oldData oldMap ch1
              in ch2\<lparr> summary := (summary ch2)
                     \<lparr> totalAdded := length (added ch2), totalUpdated := length (updated ch2),
                       totalRemoved := length (removed ch2),
                       totalUnchanged := length (unchanged ch2) \<rparr> \<rparr>))"

text \<open>
  The fast path \<^verbatim>\<open>hasChanges(oldData, newData)\<close>. It has no \<^verbatim>\<open>try\<close>: a comparator
  that throws makes it throw. The loop returns at the first entry that differs.
\<close>

fun hasChangesLoop :: "options \<Rightarrow> (string \<times> json) list \<Rightarrow> (string \<times> json) list \<Rightarrow> error + bool" where
  "hasChangesLoop opts oldMap [] = Inr False"
| "hasChangesLoop opts oldMap ((k, newItem) # rest) =
     (case map_of oldMap k of
        None \<Rightarrow> Inr True
      | Some oldItem \<Rightarrow>
          if falsy oldItem then Inr True
          else
            (case areItemsEqual opts oldItem newItem of
               Inl e \<Rightarrow> Inl e
             | Inr same \<Rightarrow> if \<not> same then Inr True else hasChangesLoop opts oldMap rest))"

definition hasChangesFast :: "options \<Rightarrow> json list \<Rightarrow> json list \<Rightarrow> error + bool" where
  "hasChangesFast opts oldData newData =
     (if length oldData \<noteq> length newData then Inr True
      else
        (let oldMap = buildDataMap opts oldData;
             newMap = buildDataMap opts newData
         in if length oldMap \<noteq> length newMap then Inr True
            else hasChangesLoop opts oldMap newMap))"

subsection \<open>The key lists of a change set\<close>

text \<open>The keys of the four partitions of a change set, in the order of the lists.\<close>

definition addedKeys :: "changeSet \<Rightarrow> string list" where
  "addedKeys cs = map key (added cs)"

definition updatedKeys :: "changeSet \<Rightarrow> string list" where
  "updatedKeys cs = map u_key (updated cs)"

definition removedKeys :: "changeSet \<Rightarrow> string list" where
  "removedKeys cs = map key (removed cs)"

definition unchangedKeys :: "changeSet \<Rightarrow> string list" where
  "unchangedKeys cs = map key (unchanged cs)"

text \<open>The key set of a collection: the keys of the map built from it.\<close>

definition mapKeys :: "options \<Rightarrow> json list \<Rightarrow> string list" where
  "mapKeys opts items = map fst (buildDataMap opts items)"

text \<open>The configured comparator, when there is one, returns on every pair of items.\<close>

definition comparatorReturns :: "options \<Rightarrow> bool" where
  "comparatorReturns opts =
     (case compareFunction opts of None \<Rightarrow> True | Some f \<Rightarrow> \<forall>a b. \<exists>r. f a b = Inr r)"

text \<open>The flag says that one of the three partitions of changes is non-empty.\<close>

definition flagAgrees :: "changeSet \<Rightarrow> bool" where
  "flagAgrees cs = (hasChanges cs = (added cs \<noteq> [] \<or> updated cs \<noteq> [] \<or> removed cs \<noteq> []))"

text \<open>The keys the first loop has classified so far.\<close>

definition newKeys3 :: "changeSet \<Rightarrow> string list" where
  "newKeys3 ch = addedKeys ch @ updatedKeys ch @ unchangedKeys ch"

text \<open>What one iteration of the first loop does to the change set, for the key \<open>k\<close>.\<close>

definition extendsBy :: "string \<Rightarrow> changeSet \<Rightarrow> changeSet \<Rightarrow> bool" where
  "extendsBy k ch ch1 =
     (set (newKeys3 ch1) = insert k (set (newKeys3 ch)) \<and>
      (distinct (newKeys3 ch) \<and> k \<notin> set (newKeys3 ch) \<longrightarrow> distinct (newKeys3 ch1)) \<and>
      removed ch1 = removed ch \<and>
      (flagAgrees ch \<longrightarrow> flagAgrees ch1))"

subsection \<open>What the fast path looks for\<close>

text \<open>
  An entry of the new map counts as a change when the old map has no item under its key
  or the two items are not equal.
\<close>

definition differs :: "options \<Rightarrow> (string \<times> json) list \<Rightarrow> string \<times> json \<Rightarrow> bool" where
  "differs opts oldMap e =
     (case map_of oldMap (fst e) of
        None \<Rightarrow> True
      | Some oldItem \<Rightarrow> falsy oldItem \<or> areItemsEqual opts oldItem (snd e) = Inr False)"

section \<open>PollingService\<close>

text \<open>
  Times and intervals are milliseconds. \<^verbatim>\<open>x || d\<close> on an optional number takes the
  default when the number is left out or zero.
\<close>

definition orDefault :: "nat option \<Rightarrow> nat \<Rightarrow> nat" where
  "orDefault x d = (case x of None \<Rightarrow> d | Some v \<Rightarrow> if v = 0 then d else v)"

record pollingConfig =
  normalInterval :: nat
  activeInterval :: nat
  backgroundInterval :: nat
  retryDelay :: nat
  maxRetries :: nat

text \<open>How the promise of one call of \<^verbatim>\<open>fetchFunction\<close> settles.\<close>

datatype outcome = Resolved json | Rejected error

text \<open>
  \<^verbatim>\<open>this.options\<close>. The fetch function is the caller's: its \<open>n\<close>-th call settles
  after some milliseconds with an outcome. The two callbacks are observers; the model
  records whether each is configured and logs its calls.
\<close>

record pollingOptions =
  fetchFunction :: "(nat \<Rightarrow> nat \<times> outcome) option"
  onSuccess :: bool
  onError :: bool
  pollingConfig :: pollingConfig

definition newPollingOptions ::
  "(nat \<Rightarrow> nat \<times> outcome) option \<Rightarrow> bool \<Rightarrow> bool \<Rightarrow>
   nat option \<Rightarrow> nat option \<Rightarrow> nat option \<Rightarrow> nat option \<Rightarrow> nat option \<Rightarrow> pollingOptions" where
  "newPollingOptions ff succ err normal active background delay retries =
     \<lparr> fetchFunction = ff, onSuccess = succ, onError = err,
       pollingConfig =
         \<lparr> normalInterval = orDefault normal 30000,
           activeInterval = orDefault active 10000,
           backgroundInterval = orDefault background 60000,
           retryDelay = orDefault delay 5000,
           maxRetries = orDefault retries 3 \<rparr> \<rparr>"

text \<open>\<^verbatim>\<open>this.state\<close>. A timer handle is a positive integer, so a stored handle is truthy.\<close>

record pollState =
  isActive :: bool
  currentInterval :: nat
  retryCount :: nat
  isOnline :: bool
  isVisible :: bool
  isUserActive :: bool
  timerId :: "nat option"
  lastFetchTime :: "nat option"
  lastSuccessTime :: "nat option"
  lastError :: "error option"

text \<open>
  What the browser holds for the service: the timers and awaited promises that will wake
  it. \<open>PollTimer\<close> is the \<^verbatim>\<open>setTimeout\<close> of the \<^verbatim>\<open>finally\<close> block, \<open>RetryDelay\<close>
  the \<^verbatim>\<open>delay\<close> awaited in \<^verbatim>\<open>handleError\<close>, \<open>FetchSettled\<close> the awaited fetch,
  \<open>ActivityTimeout\<close> the 60 second timer of the activity detection.
\<close>

datatype task = PollTimer | RetryDelay | FetchSettled outcome | ActivityTimeout

datatype callback = OnSuccess json | OnError error string

text \<open>
  The service in its runtime: the state, the clock (\<^verbatim>\<open>Date.now()\<close>), the pending tasks
  as (handle, due time, task), the next handle, the number of calls of the fetch
  function, the log of callback calls, and the closure variable \<^verbatim>\<open>activityTimeout\<close>.
\<close>

record service =
  pollState :: pollState
  now :: nat
  pending :: "(nat \<times> nat \<times> task) list"
  nextId :: nat
  fetchCalls :: nat
  callbacks :: "callback list"
  activityTimeout :: "nat option"

text \<open>\<^verbatim>\<open>setTimeout\<close> (and an awaited promise): the task is due after \<open>ms\<close>.\<close>

definition schedule :: "task \<Rightarrow> nat \<Rightarrow> service \<Rightarrow> service" where
  "schedule t ms s =
     s\<lparr> pending := pending s @ [(nextId s, now s + ms, t)], nextId := Suc (nextId s) \<rparr>"

definition clearTimeout :: "nat \<Rightarrow> service \<Rightarrow> service" where
  "clearTimeout i s = s\<lparr> pending := filter (\<lambda>p. fst p \<noteq> i) (pending s) \<rparr>"

definition pause :: "service \<Rightarrow> service" where
  "pause s =
     (let s1 = s\<lparr> pollState := (pollState s)\<lparr> isActive := False \<rparr> \<rparr>
      in case timerId (pollState s1) of
           Some i \<Rightarrow> (clearTimeout i s1)\<lparr> pollState := (pollState s1)\<lparr> timerId := None \<rparr> \<rparr>
         | None \<Rightarrow> s1)"

text \<open>The \<^verbatim>\<open>finally\<close> block of \<^verbatim>\<open>executePollingCycle\<close>.\<close>

definition finallyBlock :: "service \<Rightarrow> service" where
  "finallyBlock s =
     (if isActive (pollState s) then
        (schedule PollTimer (currentInterval (pollState s)) s)
          \<lparr> pollState := (pollState s)\<lparr> timerId := Some (nextId s) \<rparr> \<rparr>
      else s)"

text \<open>
  \<^verbatim>\<open>handleError\<close>. The result says whether the function is left waiting on
  \<^verbatim>\<open>delay(retryDelay)\<close> (\<open>True\<close>) or has returned (\<open>False\<close>).
\<close>

definition handleError :: "pollingOptions \<Rightarrow> error \<Rightarrow> service \<Rightarrow> service \<times> bool" where
  "handleError opts err s =
     (let s1 = s\<lparr> pollState := (pollState s)
                  \<lparr> lastError := Some err, retryCount := retryCount (pollState s) + 1 \<rparr> \<rparr>
      in if retryCount (pollState s1) \<ge> maxRetries (pollingConfig opts) then
           (let s2 = pause s1
            in (if onError opts
                then s2\<lparr> callbacks := callbacks s2 @ [OnError err ''max_retries_exceeded''] \<rparr>
                else s2, False))
         else (schedule RetryDelay (retryDelay (pollingConfig opts)) s1, True))"

text \<open>
  The \<^verbatim>\<open>catch\<close> block awaits \<^verbatim>\<open>handleError\<close>; the \<^verbatim>\<open>finally\<close> block follows at once
  when it has returned, and on the wake-up of the delay otherwise.
\<close>

definition catchBlock :: "pollingOptions \<Rightarrow> error \<Rightarrow> service \<Rightarrow> service" where
  "catchBlock opts err s =
     (case handleError opts err s of
        (s1, True) \<Rightarrow> s1
      | (s1, False) \<Rightarrow> finallyBlock s1)"

text \<open>The message of the error thrown when no fetch function is configured (UTF-8).\<close>

definition fetchFunctionMissing :: error where
  "fetchFunctionMissing =
     Error (''fetchFunction'' @
       [CHR 0xE6, CHR 0x9C, CHR 0xAA, CHR 0xE9, CHR 0x85, CHR 0x8D, CHR 0xE7, CHR 0xBD, CHR 0xAE])"

text \<open>
  \<^verbatim>\<open>executePollingCycle\<close> up to its first suspension: the call of the fetch function,
  whose promise is awaited.
\<close>

definition executePollingCycle :: "pollingOptions \<Rightarrow> service \<Rightarrow> service" where
  "executePollingCycle opts s =
     (if \<not> isActive (pollState s) then s
      else
        (let s1 = s\<lparr> pollState := (pollState s)\<lparr> lastFetchTime := Some (now s) \<rparr> \<rparr>
         in case fetchFunction opts of
              None \<Rightarrow> catchBlock opts fetchFunctionMissing s1
            | Some f \<Rightarrow>
                schedule (FetchSettled (snd (f (fetchCalls s1)))) (fst (f (fetchCalls s1)))
                  (s1\<lparr> fetchCalls := Suc (fetchCalls s1) \<rparr>)))"

text \<open>The rest of the \<^verbatim>\<open>try\<close> block, once the fetch has resolved with \<open>d\<close>.\<close>

definition fetchResolved :: "pollingOptions \<Rightarrow> json \<Rightarrow> service \<Rightarrow> service" where
  "fetchResolved opts d s =
     (let s1 = s\<lparr> pollState := (pollState s)
                  \<lparr> retryCount := 0, lastSuccessTime := Some (now s), lastError := None \<rparr> \<rparr>
      in finallyBlock
           (if onSuccess opts then s1\<lparr> callbacks := callbacks s1 @ [OnSuccess d] \<rparr> else s1))"

definition start :: "pollingOptions \<Rightarrow> service \<Rightarrow> service" where
  "start opts s =
     (if isActive (pollState s) then s
      else executePollingCycle opts (s\<lparr> pollState := (pollState s)\<lparr> isActive := True \<rparr> \<rparr>))"

definition resume :: "pollingOptions \<Rightarrow> service \<Rightarrow> service" where
  "resume opts s =
     (if \<not> isActive (pollState s)
      then executePollingCycle opts (s\<lparr> pollState := (pollState s)\<lparr> isActive := True \<rparr> \<rparr>)
      else s)"

definition restart :: "pollingOptions \<Rightarrow> service \<Rightarrow> service" where
  "restart opts s = resume opts (pause s)"

definition stop :: "service \<Rightarrow> service" where
  "stop s =
     (let s1 = pause s
      in s1\<lparr> pollState := (pollState s1)\<lparr> retryCount := 0, lastError := None \<rparr> \<rparr>)"

definition adjustPollingInterval :: "pollingOptions \<Rightarrow> service \<Rightarrow> service" where
  "adjustPollingInterval opts s =
     (let newInterval =
            (if \<not> isOnline (pollState s) then backgroundInterval (pollingConfig opts) * 2
             else if \<not> isVisible (pollState s) then backgroundInterval (pollingConfig opts)
             else if isUserActive (pollState s) then activeInterval (pollingConfig opts)
             else normalInterval (pollingConfig opts))
      in if newInterval \<noteq> currentInterval (pollState s) then
           (let s1 = s\<lparr> pollState := (pollState s)\<lparr> currentInterval := newInterval \<rparr> \<rparr>
            in if isActive (pollState s1) then restart opts s1 else s1)
         else s)"

text \<open>The listeners of \<^verbatim>\<open>setupEventListeners\<close> and \<^verbatim>\<open>setupUserActivityDetection\<close>.\<close>

definition onOnline :: "pollingOptions \<Rightarrow> service \<Rightarrow> service" where
  "onOnline opts s = resume opts (s\<lparr> pollState := (pollState s)\<lparr> isOnline := True \<rparr> \<rparr>)"

definition onOffline :: "service \<Rightarrow> service" where
  "onOffline s = pause (s\<lparr> pollState := (pollState s)\<lparr> isOnline := False \<rparr> \<rparr>)"

definition onVisibilityChange :: "pollingOptions \<Rightarrow> bool \<Rightarrow> service \<Rightarrow> service" where
  "onVisibilityChange opts hidden s =
     adjustPollingInterval opts (s\<lparr> pollState := (pollState s)\<lparr> isVisible := \<not> hidden \<rparr> \<rparr>)"

definition handleUserActive :: "pollingOptions \<Rightarrow> service \<Rightarrow> service" where
  "handleUserActive opts s =
     (let s1 = adjustPollingInterval opts
                 (s\<lparr> pollState := (pollState s)\<lparr> isUserActive := True \<rparr> \<rparr>);
          s2 = (case activityTimeout s1 of Some i \<Rightarrow> clearTimeout i s1 | None \<Rightarrow> s1)
      in (schedule ActivityTimeout 60000 s2)\<lparr> activityTimeout := Some (nextId s2) \<rparr>)"

definition onActivityTimeout :: "pollingOptions \<Rightarrow> service \<Rightarrow> service" where
  "onActivityTimeout opts s =
     adjustPollingInterval opts (s\<lparr> pollState := (pollState s)\<lparr> isUserActive := False \<rparr> \<rparr>)"

text \<open>
  The constructor, at time \<open>t0\<close>, with \<^verbatim>\<open>navigator.onLine\<close> and \<^verbatim>\<open>document.hidden\<close> as
  they are then: \<^verbatim>\<open>init\<close> sets up the listeners, which triggers the activity handler
  once, and adjusts the interval.
\<close>

definition newPollingService :: "pollingOptions \<Rightarrow> bool \<Rightarrow> bool \<Rightarrow> nat \<Rightarrow> service" where
  "newPollingService opts online hidden t0 =
     adjustPollingInterval opts
       (handleUserActive opts
          \<lparr> pollState =
              \<lparr> isActive = False, currentInterval = normalInterval (pollingConfig opts),
                retryCount = 0, isOnline = online, isVisible = \<not> hidden, isUserActive = True,
                timerId = None, lastFetchTime = None, lastSuccessTime = None,
                lastError = None \<rparr>,
            now = t0, pending = [], nextId = 1, fetchCalls = 0, callbacks = [],
            activityTimeout = None \<rparr>)"

text \<open>What a task does when it wakes the service.\<close>

fun wake :: "pollingOptions \<Rightarrow> task \<Rightarrow> service \<Rightarrow> service" where
  "wake opts PollTimer s = executePollingCycle opts s"
| "wake opts RetryDelay s = finallyBlock s"
| "wake opts (FetchSettled (Resolved d)) s = fetchResolved opts d s"
| "wake opts (FetchSettled (Rejected e)) s = catchBlock opts e s"
| "wake opts ActivityTimeout s = onActivityTimeout opts s"

text \<open>
  The event loop: the pending task that is due first (the earliest registered among
  equals) is taken off, the clock moves to its due time, and it wakes the service.
  \<open>None\<close> when nothing is pending.
\<close>

fun earliest :: "(nat \<times> nat \<times> task) list \<Rightarrow> (nat \<times> nat \<times> task) option" where
  "earliest [] = None"
| "earliest (p # ps) =
     (case earliest ps of
        None \<Rightarrow> Some p
      | Some q \<Rightarrow> if fst (snd q) < fst (snd p) then Some q else Some p)"

definition step :: "pollingOptions \<Rightarrow> service \<Rightarrow> service option" where
  "step opts s =
     (case earliest (pending s) of
        None \<Rightarrow> None
      | Some (i, due, t) \<Rightarrow>
          Some (wake opts t (s\<lparr> now := max (now s) due,
                                pending := filter (\<lambda>p. fst p \<noteq> i) (pending s) \<rparr>)))"

fun run :: "pollingOptions \<Rightarrow> nat \<Rightarrow> service \<Rightarrow> service option" where
  "run opts 0 s = Some s"
| "run opts (Suc n) s = (case step opts s of None \<Rightarrow> None | Some s1 \<Rightarrow> run opts n s1)"

subsection \<open>Failures along a run of the event loop\<close>

text \<open>The task is the settling of a fetch that failed, or of one that succeeded.\<close>

fun isFailure :: "task \<Rightarrow> bool" where
  "isFailure (FetchSettled (Rejected e)) = True"
| "isFailure t = False"

fun isSuccess :: "task \<Rightarrow> bool" where
  "isSuccess (FetchSettled (Resolved d)) = True"
| "isSuccess t = False"

text \<open>The number of failed fetches among the first \<open>n\<close> tasks the event loop handles.\<close>

fun failuresHandled :: "pollingOptions \<Rightarrow> nat \<Rightarrow> service \<Rightarrow> nat" where
  "failuresHandled opts 0 s = 0"
| "failuresHandled opts (Suc n) s =
     (case earliest (pending s) of
        None \<Rightarrow> 0
      | Some (i, due, t) \<Rightarrow>
          (if isFailure t then 1 else 0) +
          (case step opts s of None \<Rightarrow> 0 | Some s1 \<Rightarrow> failuresHandled opts n s1))"

text \<open>
  The count of consecutive failures in the words of the specification, read off the first
  \<open>n\<close> tasks the event loop handles: a failed fetch adds one to the count \<open>c\<close>, a
  successful one puts it back to 0, and no other task touches it.
\<close>

fun consecutiveFailures :: "pollingOptions \<Rightarrow> nat \<Rightarrow> service \<Rightarrow> nat \<Rightarrow> nat" where
  "consecutiveFailures opts 0 s c = c"
| "consecutiveFailures opts (Suc n) s c =
     (case earliest (pending s) of
        None \<Rightarrow> c
      | Some (i, due, t) \<Rightarrow>
          (case step opts s of
             None \<Rightarrow> c
           | Some s1 \<Rightarrow>
               consecutiveFailures opts n s1
                 (if isFailure t then c + 1 else if isSuccess t then 0 else c)))"

text \<open>
  A polling cycle is in progress: one of the pending tasks belongs to the cycle (a fetch
  in flight, the retry delay or the poll timer; the inactivity timer does not), and the
  handles are as the browser gives them out, distinct and older than the next one.
\<close>

fun cycleTask :: "task \<Rightarrow> bool" where
  "cycleTask ActivityTimeout = False"
| "cycleTask t = True"

definition cyclePending :: "service \<Rightarrow> bool" where
  "cyclePending s =
     (distinct (map fst (pending s))
      \<and> list_all (\<lambda>p. fst p < nextId s) (pending s)
      \<and> list_ex (\<lambda>p. cycleTask (snd (snd p))) (pending s))"

text \<open>
  Every fetch fails: the calls of the fetch function still to come are rejected, and no
  fetch in flight resolves.
\<close>

definition fetchesFail :: "(nat \<Rightarrow> nat \<times> outcome) \<Rightarrow> service \<Rightarrow> bool" where
  "fetchesFail f s =
     ((\<forall>n \<ge> fetchCalls s. \<exists>e. snd (f n) = Rejected e)
      \<and> list_all (\<lambda>p. \<not> isSuccess (snd (snd p))) (pending s))"

text \<open>
  The service is in a run of failures that has not reached the bound: it is active with
  fewer than \<open>maxRetries\<close> failures counted, a cycle is in progress and every fetch fails.
\<close>

definition retrying :: "pollingOptions \<Rightarrow> (nat \<Rightarrow> nat \<times> outcome) \<Rightarrow> service \<Rightarrow> bool" where
  "retrying opts f s =
     (isActive (pollState s) \<and> retryCount (pollState s) < maxRetries (pollingConfig opts)
      \<and> cyclePending s \<and> fetchesFail f s)"

text \<open>
  A bound on the tasks the event loop handles before the next failure: a fetch in flight
  fails at its own step, a poll timer needs one step more, a retry delay two, and the
  inactivity timer is handled once and may restart the cycle with a fetch.
\<close>

fun weightOf :: "task \<Rightarrow> nat" where
  "weightOf (FetchSettled r) = 1"
| "weightOf PollTimer = 2"
| "weightOf RetryDelay = 3"
| "weightOf ActivityTimeout = 2"

definition backlog :: "service \<Rightarrow> nat" where
  "backlog s = sum_list (map (\<lambda>p. weightOf (snd (snd p))) (pending s))"

subsection \<open>A service whose fetches all fail\<close>

text \<open>
  A scenario used to run the model: every call of the fetch function is rejected after
  100 ms; both callbacks are configured and the polling configuration is the default one.
  The service is constructed at time 0, online and visible; after 60 seconds without
  activity its inactivity timer has fired and nothing else is pending; then it is started.
\<close>

definition alwaysFailing :: "nat \<Rightarrow> nat \<times> outcome" where
  "alwaysFailing n = (100, Rejected (Error ''network''))"

definition failingOptions :: pollingOptions where
  "failingOptions = newPollingOptions (Some alwaysFailing) True True None None None None None"

definition freshService :: service where
  "freshService = newPollingService failingOptions True False 0"

definition startedService :: service where
  "startedService = start failingOptions (the (run failingOptions 1 freshService))"

text \<open>
  The same service started right after its construction, while the inactivity timer of
  the constructor is still pending.
\<close>

definition normalStart :: service where
  "normalStart = start failingOptions freshService"

subsection \<open>A service whose third fetch succeeds\<close>

text \<open>
  Every call of the fetch function is rejected after 100 ms, except the third, which
  resolves. The service is constructed at time 0 with the default configuration and
  started at once. \<open>recoveringAwaiting\<close> is the service after two failures, with the
  third fetch in flight; \<open>recovered\<close> is the service once that fetch has resolved.
\<close>

definition recovering :: "nat \<Rightarrow> nat \<times> outcome" where
  "recovering n = (100, if n = 2 then Resolved (JStr ''ok'') else Rejected (Error ''network''))"

definition recoveringOptions :: pollingOptions where
  "recoveringOptions = newPollingOptions (Some recovering) True True None None None None None"

definition recoveringStart :: service where
  "recoveringStart = start recoveringOptions (newPollingService recoveringOptions True False 0)"

definition recoveringAwaiting :: service where
  "recoveringAwaiting = the (run recoveringOptions 6 recoveringStart)"

definition recovered :: service where
  "recovered = the (run recoveringOptions 7 recoveringStart)"

subsection \<open>The polling interval\<close>

text \<open>
  The interval in the words of the specification: offline wins, then a hidden page, then
  user activity, and the normal interval is what remains.
\<close>

definition intervalByPrecedence :: "pollingConfig \<Rightarrow> bool \<Rightarrow> bool \<Rightarrow> bool \<Rightarrow> nat" where
  "intervalByPrecedence cfg online visible userActive =
     (if \<not> online then backgroundInterval cfg * 2
      else if \<not> visible then backgroundInterval cfg
      else if userActive then activeInterval cfg
      else normalInterval cfg)"

text \<open>The three signals and the current interval of a service.\<close>

definition signals :: "service \<Rightarrow> bool \<times> bool \<times> bool \<times> nat" where
  "signals s = (isOnline (pollState s), isVisible (pollState s), isUserActive (pollState s),
                currentInterval (pollState s))"

section \<open>RealTimeState\<close>

text \<open>
  The state tree is a JavaScript object with the property \<^verbatim>\<open>timestamp\<close>, which the store
  writes itself, and the properties the reducer works on (\<open>tree\<close>). The reducer
  \<^verbatim>\<open>reduce(action)\<close> and the middleware functions are parameters of the store: each maps
  the (processed) action and the current state to its result or throws, as the source's
  reducer does on an action without the payload it reads. What is proved of the history
  holds for every reducer. An action that may be \<^verbatim>\<open>undefined\<close> is a \<open>json option\<close>.
\<close>

record 'a rtState =
  tree :: 'a
  timestamp :: nat

record 'a historyEntry =
  h_timestamp :: nat
  h_action :: "json option"
  h_state :: "'a rtState"

record 'a rtOptions =
  initialState :: "'a rtState"
  reduce :: "json option \<Rightarrow> 'a rtState \<Rightarrow> error + 'a rtState"

text \<open>
  The store: \<^verbatim>\<open>this.state\<close>, the middleware, \<^verbatim>\<open>isDispatching\<close>, the history and its
  bound. The listeners are observers; \<open>notified\<close> logs the states they were called with.
  A history entry holds a shallow copy of the state; the model records the state as it is
  at the time of the entry.
\<close>

record 'a realTimeState =
  rtState :: "'a rtState"
  middleware :: "(json option \<Rightarrow> 'a rtState \<Rightarrow> error + json option) list"
  isDispatching :: bool
  history :: "'a historyEntry list"
  maxHistorySize :: nat
  notified :: "'a rtState list"

definition notifyListeners :: "'a realTimeState \<Rightarrow> 'a realTimeState" where
  "notifyListeners st = st\<lparr> notified := notified st @ [rtState st] \<rparr>"

text \<open>
  The constructor at time \<open>t\<close>, with persistence and developer tools disabled (the
  defaults): \<^verbatim>\<open>init\<close> puts the \<^verbatim>\<open>@@INIT\<close> entry into the empty history.
\<close>

definition newRealTimeState ::
  "'a rtOptions \<Rightarrow> (json option \<Rightarrow> 'a rtState \<Rightarrow> error + json option) list \<Rightarrow> nat \<Rightarrow>
   'a realTimeState" where
  "newRealTimeState opts mws t =
     \<lparr> rtState = initialState opts, middleware = mws, isDispatching = False,
       history = [\<lparr> h_timestamp = t, h_action = Some (JObj [(''type'', JStr ''@@INIT'')]),
                    h_state = initialState opts \<rparr>],
       maxHistorySize = 50, notified = [] \<rparr>"

text \<open>\<^verbatim>\<open>runMiddleware\<close>: each middleware in turn; one that throws ends the loop.\<close>

fun runMiddleware ::
  "(json option \<Rightarrow> 'a rtState \<Rightarrow> error + json option) list \<Rightarrow> json option \<Rightarrow> 'a rtState \<Rightarrow>
   error + json option" where
  "runMiddleware [] action s = Inr action"
| "runMiddleware (mw # mws) action s =
     (case mw action s of Inl e \<Rightarrow> Inl e | Inr a \<Rightarrow> runMiddleware mws a s)"

text \<open>
  \<^verbatim>\<open>array.slice(-n)\<close>: the last \<open>n\<close> elements, and the whole array for \<open>n = 0\<close>
  (\<^verbatim>\<open>-0\<close> is \<^verbatim>\<open>0\<close>).
\<close>

definition sliceLast :: "nat \<Rightarrow> 'b list \<Rightarrow> 'b list" where
  "sliceLast n xs = (if n = 0 then xs else drop (length xs - n) xs)"

text \<open>
  \<^verbatim>\<open>dispatch(action)\<close> at time \<open>t\<close>: the value returned or the error thrown, and the
  store afterwards. The three checks throw before the \<^verbatim>\<open>try\<close> block. Inside it a
  throwing middleware or reducer leaves state and history as they are, and the
  \<^verbatim>\<open>finally\<close> block resets \<^verbatim>\<open>isDispatching\<close>.
\<close>

definition dispatch ::
  "'a rtOptions \<Rightarrow> json option \<Rightarrow> nat \<Rightarrow> 'a realTimeState \<Rightarrow> (error + 'a rtState) \<times> 'a realTimeState" where
  "dispatch opts action t st =
     (if isDispatching st then (Inl (Error ''Reducers may not dispatch actions.''), st)
      else
        (case action of
           None \<Rightarrow> (Inl (Error ''Actions must be plain objects.''), st)
         | Some a \<Rightarrow>
             if \<not> isObject a then (Inl (Error ''Actions must be plain objects.''), st)
             else if getProp a ''type'' = None
             then (Inl (Error ''Actions must have a type property.''), st)
             else
               (case runMiddleware (middleware st) action (rtState st) of
                  Inl e \<Rightarrow> (Inl e, st\<lparr> isDispatching := False \<rparr>)
                | Inr processedAction \<Rightarrow>
                    (case reduce opts processedAction (rtState st) of
                       Inl e \<Rightarrow> (Inl e, st\<lparr> isDispatching := False \<rparr>)
                     | Inr reduced \<Rightarrow>
                         (let newState = reduced\<lparr> timestamp := t \<rparr>;
                              pushed = history st @
                                [\<lparr> h_timestamp = t, h_action = processedAction,
                                   h_state = newState \<rparr>];
                              limited = (if length pushed > maxHistorySize st
                                         then sliceLast (maxHistorySize st) pushed else pushed)
                          in (Inr newState,
                              (notifyListeners
                                 (st\<lparr> rtState := newState, history := limited \<rparr>))
                                \<lparr> isDispatching := False \<rparr>))))))"

text \<open>
  \<^verbatim>\<open>resetState(newState)\<close> at time \<open>t\<close>; \<open>None\<close> is the default \<^verbatim>\<open>null\<close>, for which
  the initial state is taken.
\<close>

definition resetState :: "'a rtOptions \<Rightarrow> 'a rtState option \<Rightarrow> nat \<Rightarrow> 'a realTimeState \<Rightarrow> 'a realTimeState" where
  "resetState opts newState t st =
     (let s = (case newState of Some n \<Rightarrow> n | None \<Rightarrow> initialState opts)\<lparr> timestamp := t \<rparr>
      in notifyListeners
           (st\<lparr> rtState := s,
                history := [\<lparr> h_timestamp = t, h_action = Some (JObj [(''type'', JStr ''@@RESET'')]),
                              h_state = s \<rparr>] \<rparr>))"

text \<open>\<^verbatim>\<open>timeTravelTo(index)\<close>: an index outside the history is ignored.\<close>

definition timeTravelTo :: "int \<Rightarrow> 'a realTimeState \<Rightarrow> 'a realTimeState" where
  "timeTravelTo index st =
     (if index \<ge> 0 \<and> index < int (length (history st))
      then notifyListeners (st\<lparr> rtState := h_state (history st ! nat index) \<rparr>)
      else st)"

text \<open>The operations of the claim, each with the time at which it runs.\<close>

datatype 'a rtOperation =
    Dispatch "json option" nat
  | ResetState "'a rtState option" nat
  | TimeTravelTo int

fun perform :: "'a rtOptions \<Rightarrow> 'a realTimeState \<Rightarrow> 'a rtOperation \<Rightarrow> 'a realTimeState" where
  "perform opts st (Dispatch action t) = snd (dispatch opts action t st)"
| "perform opts st (ResetState newState t) = resetState opts newState t st"
| "perform opts st (TimeTravelTo index) = timeTravelTo index st"

subsection \<open>A store counting failed polls\<close>

text \<open>
  A store to run the model on: its state is the retry count of the polling state, and
  its reducer is the source's on the two actions that change that count
  (\<^verbatim>\<open>POLLING_FAILED\<close>, which reads the payload, and \<^verbatim>\<open>POLLING_COMPLETED\<close>). The busy
  store has dispatched 50 failures since its construction.
\<close>

definition pollingReducer :: "json option \<Rightarrow> nat rtState \<Rightarrow> error + nat rtState" where
  "pollingReducer action s =
     (case action of
        None \<Rightarrow> Inl (Error ''TypeError'')
      | Some a \<Rightarrow>
          if getProp a ''type'' = Some (JStr ''POLLING_COMPLETED'') then Inr (s\<lparr> tree := 0 \<rparr>)
          else if getProp a ''type'' = Some (JStr ''POLLING_FAILED'') then
            (case getProp a ''payload'' of
               None \<Rightarrow> Inl (Error ''TypeError'')
             | Some p \<Rightarrow> Inr (s\<lparr> tree := tree s + 1 \<rparr>))
          else Inr s)"

definition pollingStore :: "nat rtOptions" where
  "pollingStore = \<lparr> initialState = \<lparr> tree = 0, timestamp = 0 \<rparr>, reduce = pollingReducer \<rparr>"

definition pollingFailed :: "json option" where
  "pollingFailed = Some (JObj [(''type'', JStr ''POLLING_FAILED''), (''payload'', JObj [(''error'', JStr ''e'')])])"

definition busyStore :: "nat realTimeState" where
  "busyStore = foldl (perform pollingStore) (newRealTimeState pollingStore [] 0)
                 (replicate 50 (Dispatch pollingFailed 1))"

section \<open>CacheManager\<close>

text \<open>
  Times, durations and sizes are integers (milliseconds, bytes). The manager is generic
  in the type \<open>'v\<close> of cached values. Each asynchronous method is modelled as one
  uninterrupted call at the time \<open>time\<close> (\<^verbatim>\<open>Date.now()\<close>).
\<close>

record 'v cacheItem =
  c_key :: string
  c_value :: 'v
  c_timestamp :: int
  c_ttl :: int
  c_type :: string
  c_priority :: int
  c_size :: int
  c_lastAccessed :: "int option"

record cacheOptions =
  cacheName :: string
  maxSizeMB :: int
  defaultTTL :: int
  enableMemoryCache :: bool
  enableIndexedDB :: bool
  enableServiceWorker :: bool
  cleanupInterval :: int

text \<open>\<^verbatim>\<open>x || d\<close> on an optional number and on an optional string.\<close>

definition numberOr :: "int option \<Rightarrow> int \<Rightarrow> int" where
  "numberOr x d = (case x of None \<Rightarrow> d | Some v \<Rightarrow> if v = 0 then d else v)"

definition stringOr :: "string option \<Rightarrow> string \<Rightarrow> string" where
  "stringOr x d = (case x of None \<Rightarrow> d | Some v \<Rightarrow> if v = [] then d else v)"

text \<open>The options the constructor computes from the caller's.\<close>

definition newCacheOptions ::
  "string option \<Rightarrow> int option \<Rightarrow> int option \<Rightarrow> bool option \<Rightarrow> bool option \<Rightarrow> bool option \<Rightarrow>
   int option \<Rightarrow> cacheOptions" where
  "newCacheOptions name maxMB ttl memory idb sw interval =
     \<lparr> cacheName = stringOr name ''financial-insights-v1'',
       maxSizeMB = numberOr maxMB 50,
       defaultTTL = numberOr ttl (5 * 60 * 1000),
       enableMemoryCache = (memory \<noteq> Some False),
       enableIndexedDB = (idb \<noteq> Some False),
       enableServiceWorker = (sw = Some True),
       cleanupInterval = numberOr interval (10 * 60 * 1000) \<rparr>"

text \<open>
  \<^verbatim>\<open>this.state\<close>. The memory cache is a \<^verbatim>\<open>Map\<close>; \<open>indexedDB\<close> says whether the handle
  of the opened database is there (it is \<^verbatim>\<open>null\<close> otherwise).
\<close>

record 'v cacheState =
  isInitialized :: bool
  currentSize :: int
  itemCount :: int
  lastCleanup :: "int option"
  memoryCache :: "(string \<times> 'v cacheItem) list"
  indexedDB :: bool

text \<open>
  The manager with what the browser keeps for it: the object store \<^verbatim>\<open>cache\<close> of the
  IndexedDB database (keyed by \<^verbatim>\<open>key\<close>), the entries of the Service Worker cache, and
  the number of cleanup intervals registered.
\<close>

record 'v cacheManager =
  cacheState :: "'v cacheState"
  database :: "(string \<times> 'v cacheItem) list"
  swCache :: "(string \<times> 'v) list"
  cleanupTimers :: nat

text \<open>
  The platform: which storage interfaces exist, and \<^verbatim>\<open>JSON.stringify\<close> on a value and
  on a cache item. It returns the text, \<^verbatim>\<open>undefined\<close> (\<open>None\<close>) or throws (a cyclic
  structure, a \<^verbatim>\<open>BigInt\<close>).
\<close>

record 'v platform =
  hasIndexedDB :: bool
  hasServiceWorker :: bool
  stringify :: "'v \<Rightarrow> error + string option"
  stringifyItem :: "'v cacheItem \<Rightarrow> error + string option"

text \<open>
  Which of the storage operations of one call fail: opening the database, counting,
  a cursor, a read, the write of \<^verbatim>\<open>storeInIndexedDB\<close>, the rewrite of
  \<^verbatim>\<open>updateLastAccessed\<close>, a delete, and the write to the Service Worker cache.
\<close>

record faults =
  openFails :: bool
  countFails :: bool
  cursorFails :: bool
  getFails :: bool
  putFails :: bool
  touchFails :: bool
  deleteFails :: bool
  swFails :: bool

definition noFaults :: faults where
  "noFaults = \<lparr> openFails = False, countFails = False, cursorFails = False, getFails = False,
                 putFails = False, touchFails = False, deleteFails = False, swFails = False \<rparr>"

text \<open>
  \<^verbatim>\<open>estimateSize\<close>: the byte size of the \<^verbatim>\<open>Blob\<close> made of the JSON text (a string is
  its bytes); an \<^verbatim>\<open>undefined\<close> text makes the 9 bytes of the word.
\<close>

definition blobSize :: "error + string option \<Rightarrow> error + nat" where
  "blobSize r = (case r of Inl e \<Rightarrow> Inl e | Inr None \<Rightarrow> Inr 9 | Inr (Some s) \<Rightarrow> Inr (length s))"

definition estimateSize :: "'v platform \<Rightarrow> 'v \<Rightarrow> error + nat" where
  "estimateSize p v = blobSize (stringify p v)"

definition estimateItemSize :: "'v platform \<Rightarrow> 'v cacheItem \<Rightarrow> error + nat" where
  "estimateItemSize p item = blobSize (stringifyItem p item)"

text \<open>
  \<^verbatim>\<open>calculateCacheSize\<close>: the estimated sizes of the memory items, and 1024 bytes for
  each entry of the database.
\<close>

fun sumItemSizes :: "'v platform \<Rightarrow> 'v cacheItem list \<Rightarrow> error + int \<times> int" where
  "sumItemSizes p [] = Inr (0, 0)"
| "sumItemSizes p (item # items) =
     (case estimateItemSize p item of
        Inl e \<Rightarrow> Inl e
      | Inr n \<Rightarrow>
          (case sumItemSizes p items of
             Inl e \<Rightarrow> Inl e
           | Inr (totalSize, totalCount) \<Rightarrow> Inr (int n + totalSize, 1 + totalCount)))"

definition calculateCacheSize ::
  "'v platform \<Rightarrow> faults \<Rightarrow> cacheOptions \<Rightarrow> 'v cacheManager \<Rightarrow> error + 'v cacheManager" where
  "calculateCacheSize p f opts m =
     (case (if enableMemoryCache opts
            then sumItemSizes p (map snd (memoryCache (cacheState m))) else Inr (0, 0)) of
        Inl e \<Rightarrow> Inl e
      | Inr (memSize, memCount) \<Rightarrow>
          if indexedDB (cacheState m) then
            (if countFails f then Inl (Error ''IndexedDB count failed'')
             else Inr (m\<lparr> cacheState := (cacheState m)
                          \<lparr> currentSize := memSize + int (length (database m)) * 1024,
                            itemCount := memCount + int (length (database m)) \<rparr> \<rparr>))
          else Inr (m\<lparr> cacheState := (cacheState m)
                        \<lparr> currentSize := memSize, itemCount := memCount \<rparr> \<rparr>))"

text \<open>
  \<^verbatim>\<open>init\<close>: everything is inside one \<^verbatim>\<open>try\<close>, whose \<^verbatim>\<open>catch\<close> only logs, so a
  failure leaves the manager uninitialised with what was done before it.
\<close>

definition init :: "'v platform \<Rightarrow> faults \<Rightarrow> cacheOptions \<Rightarrow> 'v cacheManager \<Rightarrow> 'v cacheManager" where
  "init p f opts m =
     (if enableIndexedDB opts \<and> hasIndexedDB p \<and> openFails f then m
      else
        (let m1 = (if enableIndexedDB opts \<and> hasIndexedDB p
                   then m\<lparr> cacheState := (cacheState m)\<lparr> indexedDB := True \<rparr> \<rparr> else m)
         in case calculateCacheSize p f opts m1 of
              Inl e \<Rightarrow> m1
            | Inr m2 \<Rightarrow>
                m2\<lparr> cleanupTimers := Suc (cleanupTimers m2),
                    cacheState := (cacheState m2)\<lparr> isInitialized := True \<rparr> \<rparr>))"

definition isExpired :: "int \<Rightarrow> 'v cacheItem \<Rightarrow> bool" where
  "isExpired time item = (time - c_timestamp item > c_ttl item)"

definition maxSizeBytes :: "cacheOptions \<Rightarrow> int" where
  "maxSizeBytes opts = maxSizeMB opts * 1024 * 1024"

definition isStorageFull :: "cacheOptions \<Rightarrow> 'v cacheManager \<Rightarrow> int \<Rightarrow> bool" where
  "isStorageFull opts m additionalSize =
     (currentSize (cacheState m) + additionalSize > maxSizeBytes opts)"

text \<open>
  The target of \<^verbatim>\<open>makeSpace\<close> is 70% of the maximum; \<open>x\<close> is above it when
  \<open>10 * x > 7 * maxSizeBytes\<close> (exact arithmetic).
\<close>

definition aboveTarget :: "cacheOptions \<Rightarrow> int \<Rightarrow> bool" where
  "aboveTarget opts x = (10 * x > 7 * maxSizeBytes opts)"

definition sumSizes :: "(string \<times> 'v cacheItem) list \<Rightarrow> int" where
  "sumSizes items = sum_list (map (\<lambda>p. c_size (snd p)) items)"

text \<open>
  The cleanup functions return the error thrown, if any, with the manager as it is then.
  \<^verbatim>\<open>cleanupExpiredCache\<close> sweeps the memory cache by \<open>isExpired\<close> and the database by
  the timestamp index, up to \<open>time - defaultTTL\<close>; the statistics are updated at the end.
\<close>

definition cleanupExpiredCache ::
  "faults \<Rightarrow> cacheOptions \<Rightarrow> int \<Rightarrow> 'v cacheManager \<Rightarrow> error option \<times> 'v cacheManager" where
  "cleanupExpiredCache f opts time m =
     (let expired = (if enableMemoryCache opts
                     then filter (\<lambda>p. isExpired time (snd p)) (memoryCache (cacheState m)) else []);
          m1 = (if enableMemoryCache opts
                then m\<lparr> cacheState := (cacheState m)
                         \<lparr> memoryCache := filter (\<lambda>p. \<not> isExpired time (snd p))
                                             (memoryCache (cacheState m)) \<rparr> \<rparr>
                else m)
      in if indexedDB (cacheState m1) \<and> cursorFails f
         then (Some (Error ''IndexedDB cursor failed''), m1)
         else
           (let old = (if indexedDB (cacheState m1)
                       then filter (\<lambda>p. c_timestamp (snd p) \<le> time - defaultTTL opts) (database m1)
                       else []);
                m2 = (if indexedDB (cacheState m1)
                      then m1\<lparr> database := filter (\<lambda>p. \<not> c_timestamp (snd p) \<le> time - defaultTTL opts)
                                               (database m1) \<rparr>
                      else m1)
            in (None,
                m2\<lparr> cacheState := (cacheState m2)
                      \<lparr> currentSize := currentSize (cacheState m2) - (sumSizes expired + sumSizes old),
                        itemCount := itemCount (cacheState m2) -
                                       (int (length expired) + int (length old)),
                        lastCleanup := Some time \<rparr> \<rparr>)))"

text \<open>The indexes \<^verbatim>\<open>initIndexedDB\<close> creates on the object store.\<close>

definition indexNames :: "string list" where
  "indexNames = [''timestamp'', ''size'', ''type'']"

text \<open>
  \<^verbatim>\<open>cleanupLowPriorityItems\<close> opens the index \<^verbatim>\<open>priority\<close>; \<^verbatim>\<open>store.index\<close> throws
  for a name that is not an index of the store.
\<close>

definition cleanupLowPriorityItems ::
  "faults \<Rightarrow> cacheOptions \<Rightarrow> 'v cacheManager \<Rightarrow> error option \<times> 'v cacheManager" where
  "cleanupLowPriorityItems f opts m =
     (if \<not> indexedDB (cacheState m) then (None, m)
      else if ''priority'' \<notin> set indexNames then (Some (Error ''NotFoundError''), m)
      else if cursorFails f then (Some (Error ''IndexedDB cursor failed''), m)
      else
        (let low = filter (\<lambda>p. 1 \<le> c_priority (snd p) \<and> c_priority (snd p) \<le> 3) (database m);
             m1 = m\<lparr> database := filter (\<lambda>p. \<not> (1 \<le> c_priority (snd p) \<and> c_priority (snd p) \<le> 3))
                                     (database m) \<rparr>;
             m2 = (if enableMemoryCache opts
                   then m1\<lparr> cacheState := (cacheState m1)
                             \<lparr> memoryCache :=
                                 filter (\<lambda>p. \<not> (1 \<le> c_priority (snd p) \<and> c_priority (snd p) \<le> 3))
                                   (memoryCache (cacheState m1)) \<rparr> \<rparr>
                   else m1)
         in (None,
             m2\<lparr> cacheState := (cacheState m2)
                   \<lparr> currentSize := currentSize (cacheState m2) - sumSizes low,
                     itemCount := itemCount (cacheState m2) - int (length low) \<rparr> \<rparr>)))"

text \<open>
  \<^verbatim>\<open>cleanupOldestItems\<close>: the cursor loop runs while \<^verbatim>\<open>currentSize\<close> is above the
  target, and \<^verbatim>\<open>currentSize\<close> is only updated after the loop, so it deletes every entry
  of the database or none.
\<close>

definition cleanupOldestItems ::
  "faults \<Rightarrow> cacheOptions \<Rightarrow> 'v cacheManager \<Rightarrow> error option \<times> 'v cacheManager" where
  "cleanupOldestItems f opts m =
     (if \<not> indexedDB (cacheState m) then (None, m)
      else if cursorFails f then (Some (Error ''IndexedDB cursor failed''), m)
      else
        (let oldest = (if aboveTarget opts (currentSize (cacheState m)) then database m else []);
             m1 = (if aboveTarget opts (currentSize (cacheState m)) then m\<lparr> database := [] \<rparr> else m)
         in (None,
             m1\<lparr> cacheState := (cacheState m1)
                   \<lparr> currentSize := currentSize (cacheState m1) - sumSizes oldest,
                     itemCount := itemCount (cacheState m1) - int (length oldest) \<rparr> \<rparr>)))"

definition makeSpace ::
  "faults \<Rightarrow> cacheOptions \<Rightarrow> int \<Rightarrow> int \<Rightarrow> 'v cacheManager \<Rightarrow> error option \<times> 'v cacheManager" where
  "makeSpace f opts time requiredSize m =
     (if \<not> aboveTarget opts (currentSize (cacheState m) + requiredSize) then (None, m)
      else
        (case cleanupExpiredCache f opts time m of
           (Some e, m1) \<Rightarrow> (Some e, m1)
         | (None, m1) \<Rightarrow>
             (case (if aboveTarget opts (currentSize (cacheState m1) + requiredSize)
                    then cleanupLowPriorityItems f opts m1 else (None, m1)) of
                (Some e, m2) \<Rightarrow> (Some e, m2)
              | (None, m2) \<Rightarrow>
                  if aboveTarget opts (currentSize (cacheState m2) + requiredSize)
                  then cleanupOldestItems f opts m2 else (None, m2))))"

text \<open>The two writes of \<^verbatim>\<open>set\<close>. The Service Worker write catches its own errors.\<close>

definition storeInIndexedDB :: "faults \<Rightarrow> 'v cacheItem \<Rightarrow> 'v cacheManager \<Rightarrow> error option \<times> 'v cacheManager" where
  "storeInIndexedDB f item m =
     (if putFails f then (Some (Error ''IndexedDB put failed''), m)
      else (None, m\<lparr> database := AList.update (c_key item) item (database m) \<rparr>))"

definition storeInServiceWorkerCache :: "faults \<Rightarrow> string \<Rightarrow> 'v \<Rightarrow> 'v cacheManager \<Rightarrow> 'v cacheManager" where
  "storeInServiceWorkerCache f k v m =
     (if swFails f then m else m\<lparr> swCache := AList.update k v (swCache m) \<rparr>)"

text \<open>The options of one \<^verbatim>\<open>set\<close> call.\<close>

record setOptions =
  o_ttl :: "int option"
  o_type :: "string option"
  o_priority :: "int option"

text \<open>
  The manager once \<^verbatim>\<open>set\<close> or \<^verbatim>\<open>get\<close> has awaited \<^verbatim>\<open>init\<close> when it was not
  initialised.
\<close>

definition ensureInitialized ::
  "'v platform \<Rightarrow> faults \<Rightarrow> cacheOptions \<Rightarrow> 'v cacheManager \<Rightarrow> 'v cacheManager" where
  "ensureInitialized p f opts m = (if \<not> isInitialized (cacheState m) then init p f opts m else m)"

text \<open>The space check at the head of the \<^verbatim>\<open>try\<close> block of \<^verbatim>\<open>set\<close>.\<close>

definition makeRoom ::
  "faults \<Rightarrow> cacheOptions \<Rightarrow> int \<Rightarrow> int \<Rightarrow> 'v cacheManager \<Rightarrow> error option \<times> 'v cacheManager" where
  "makeRoom f opts time requiredSize m =
     (if isStorageFull opts m requiredSize then makeSpace f opts time requiredSize m else (None, m))"

text \<open>The cache item \<^verbatim>\<open>set\<close> builds, with the size estimate \<open>n\<close> of the value.\<close>

definition makeCacheItem :: "cacheOptions \<Rightarrow> int \<Rightarrow> string \<Rightarrow> 'v \<Rightarrow> setOptions \<Rightarrow> nat \<Rightarrow> 'v cacheItem" where
  "makeCacheItem opts time k v so n =
     \<lparr> c_key = k, c_value = v, c_timestamp = time,
       c_ttl = numberOr (o_ttl so) (defaultTTL opts),
       c_type = stringOr (o_type so) ''json'',
       c_priority = numberOr (o_priority so) 5,
       c_size = int n, c_lastAccessed = None \<rparr>"

text \<open>
  The \<^verbatim>\<open>try\<close> block of \<^verbatim>\<open>set\<close> after the space check: the write to the memory
  cache, to the database and to the Service Worker cache, then the statistics. A throw
  goes to the \<^verbatim>\<open>catch\<close> block, which returns false.
\<close>

definition writeItem ::
  "faults \<Rightarrow> cacheOptions \<Rightarrow> 'v cacheItem \<Rightarrow> 'v cacheManager \<Rightarrow> (error + bool) \<times> 'v cacheManager" where
  "writeItem f opts cacheItem m =
     (let m1 = (if enableMemoryCache opts
                then m\<lparr> cacheState := (cacheState m)
                         \<lparr> memoryCache :=
                             AList.update (c_key cacheItem) cacheItem (memoryCache (cacheState m)) \<rparr> \<rparr>
                else m)
      in case (if indexedDB (cacheState m1)
               then storeInIndexedDB f cacheItem m1 else (None, m1)) of
           (Some e, m2) \<Rightarrow> (Inr False, m2)
         | (None, m2) \<Rightarrow>
             (let m3 = (if enableServiceWorker opts \<and>
                           (c_type cacheItem = ''image'' \<or> c_type cacheItem = ''html'')
                        then storeInServiceWorkerCache f (c_key cacheItem) (c_value cacheItem) m2
                        else m2)
              in (Inr True,
                  m3\<lparr> cacheState := (cacheState m3)
                        \<lparr> currentSize := currentSize (cacheState m3) + c_size cacheItem,
                          itemCount := itemCount (cacheState m3) + 1 \<rparr> \<rparr>)))"

text \<open>
  \<^verbatim>\<open>set(key, value, options)\<close>: what the call returns or throws, and the manager
  afterwards. The cache item, with the size estimate, is built before the \<^verbatim>\<open>try\<close>
  block, so a value whose JSON text cannot be made lets \<^verbatim>\<open>set\<close> throw.
\<close>

definition cacheSet ::
  "'v platform \<Rightarrow> faults \<Rightarrow> cacheOptions \<Rightarrow> int \<Rightarrow> string \<Rightarrow> 'v \<Rightarrow> setOptions \<Rightarrow> 'v cacheManager \<Rightarrow>
   (error + bool) \<times> 'v cacheManager" where
  "cacheSet p f opts time k v so m =
     (let m1 = ensureInitialized p f opts m
      in case estimateSize p v of
           Inl e \<Rightarrow> (Inl e, m1)
         | Inr n \<Rightarrow>
             (let cacheItem = makeCacheItem opts time k v so n
              in case makeRoom f opts time (c_size cacheItem) m1 of
                   (Some e, m2) \<Rightarrow> (Inr False, m2)
                 | (None, m2) \<Rightarrow> writeItem f opts cacheItem m2))"

text \<open>
  \<^verbatim>\<open>get(key)\<close>: \<open>Some v\<close> is the value returned, \<open>None\<close> the \<^verbatim>\<open>null\<close> of a miss.
  The reads of the database are inside a \<^verbatim>\<open>try\<close> whose \<^verbatim>\<open>catch\<close> logs and falls
  through to \<^verbatim>\<open>return null\<close>.
\<close>

definition getFromStore ::
  "faults \<Rightarrow> cacheOptions \<Rightarrow> int \<Rightarrow> string \<Rightarrow> 'v cacheManager \<Rightarrow> (error + 'v option) \<times> 'v cacheManager" where
  "getFromStore f opts time k m =
     (if indexedDB (cacheState m) then
        (if getFails f then (Inr None, m)
         else
           (case map_of (database m) k of
              None \<Rightarrow> (Inr None, m)
            | Some dbItem \<Rightarrow>
                if isExpired time dbItem then (Inr None, m)
                else
                  (let m1 = (if enableMemoryCache opts
                             then m\<lparr> cacheState := (cacheState m)
                                      \<lparr> memoryCache :=
                                          AList.update k (dbItem\<lparr> c_lastAccessed := Some time \<rparr>)
                                            (memoryCache (cacheState m)) \<rparr> \<rparr>
                             else m)
                   in if touchFails f then (Inr None, m1)
                      else (Inr (Some (c_value dbItem)),
                            m1\<lparr> database :=
                                  AList.update k (dbItem\<lparr> c_lastAccessed := Some time \<rparr>)
                                    (database m1) \<rparr>))))
      else (Inr None, m))"

definition cacheGet ::
  "'v platform \<Rightarrow> faults \<Rightarrow> cacheOptions \<Rightarrow> int \<Rightarrow> string \<Rightarrow> 'v cacheManager \<Rightarrow>
   (error + 'v option) \<times> 'v cacheManager" where
  "cacheGet p f opts time k m =
     (let m1 = ensureInitialized p f opts m
      in case (if enableMemoryCache opts then map_of (memoryCache (cacheState m1)) k else None) of
           Some memoryItem \<Rightarrow>
             if \<not> isExpired time memoryItem then
               (Inr (Some (c_value memoryItem)),
                m1\<lparr> cacheState := (cacheState m1)
                      \<lparr> memoryCache :=
                          AList.update k (memoryItem\<lparr> c_lastAccessed := Some time \<rparr>)
                            (memoryCache (cacheState m1)) \<rparr> \<rparr>)
             else getFromStore f opts time k m1
         | None \<Rightarrow> getFromStore f opts time k m1)"

text \<open>
  \<^verbatim>\<open>delete(key)\<close>: the delete in the database is not inside a \<^verbatim>\<open>try\<close>; the one in the
  Service Worker cache ignores its errors.
\<close>

definition cacheDelete ::
  "faults \<Rightarrow> cacheOptions \<Rightarrow> string \<Rightarrow> 'v cacheManager \<Rightarrow> (error + bool) \<times> 'v cacheManager" where
  "cacheDelete f opts k m =
     (let m1 = (case (if enableMemoryCache opts then map_of (memoryCache (cacheState m)) k else None) of
                  Some item \<Rightarrow>
                    m\<lparr> cacheState := (cacheState m)
                         \<lparr> currentSize := currentSize (cacheState m) - c_size item,
                           itemCount := itemCount (cacheState m) - 1,
                           memoryCache := AList.delete k (memoryCache (cacheState m)) \<rparr> \<rparr>
                | None \<Rightarrow> m)
      in if indexedDB (cacheState m1) \<and> deleteFails f
         then (Inl (Error ''IndexedDB delete failed''), m1)
         else
           (let m2 = (if indexedDB (cacheState m1)
                      then m1\<lparr> database := AList.delete k (database m1) \<rparr> else m1);
                m3 = (if enableServiceWorker opts \<and> \<not> swFails f
                      then m2\<lparr> swCache := AList.delete k (swCache m2) \<rparr> else m2)
            in (Inr True, m3)))"

text \<open>The manager the constructor makes, before \<^verbatim>\<open>init\<close> has run.\<close>

definition newCacheManager :: "'v cacheManager" where
  "newCacheManager =
     \<lparr> cacheState = \<lparr> isInitialized = False, currentSize = 0, itemCount = 0, lastCleanup = None,
                      memoryCache = [], indexedDB = False \<rparr>,
       database = [], swCache = [], cleanupTimers = 0 \<rparr>"

subsection \<open>A browser to run the manager in\<close>

text \<open>
  A platform for running the model. The cached values are texts and big integers:
  \<^verbatim>\<open>JSON.stringify\<close> gives a text in double quotes (the texts used need no escape) and
  throws on a \<^verbatim>\<open>BigInt\<close>; a cache item becomes the JSON object of its properties. Both
  storage interfaces exist. \<open>readyManager\<close> is the manager once \<^verbatim>\<open>init\<close> has run,
  \<open>storedManager\<close> the manager after one entry has been set at time 1000.
\<close>

datatype jsValue = Text string | BigInt int

definition quoted :: "string \<Rightarrow> string" where
  "quoted s = CHR 0x22 # s @ [CHR 0x22]"

definition jsonText :: "jsValue \<Rightarrow> error + string option" where
  "jsonText v =
     (case v of
        Text s \<Rightarrow> Inr (Some (quoted s))
      | BigInt i \<Rightarrow> Inl (Error ''Do not know how to serialize a BigInt''))"

definition itemText :: "jsValue cacheItem \<Rightarrow> error + string option" where
  "itemText item =
     (case jsonText (c_value item) of
        Inl e \<Rightarrow> Inl e
      | Inr t \<Rightarrow>
          Inr (Some (''{'' @ quoted ''key'' @ '':'' @ quoted (c_key item) @
                     '','' @ quoted ''value'' @ '':'' @ (case t of Some s \<Rightarrow> s | None \<Rightarrow> []) @
                     '','' @ quoted ''timestamp'' @ '':'' @ showInt (c_timestamp item) @
                     '','' @ quoted ''ttl'' @ '':'' @ showInt (c_ttl item) @
                     '','' @ quoted ''type'' @ '':'' @ quoted (c_type item) @
                     '','' @ quoted ''priority'' @ '':'' @ showInt (c_priority item) @
                     '','' @ quoted ''size'' @ '':'' @ showInt (c_size item) @
                     (case c_lastAccessed item of
                        None \<Rightarrow> []
                      | Some a \<Rightarrow> '','' @ quoted ''lastAccessed'' @ '':'' @ showInt a) @
                     ''}'')))"

definition browser :: "jsValue platform" where
  "browser = \<lparr> hasIndexedDB = True, hasServiceWorker = True,
               stringify = jsonText, stringifyItem = itemText \<rparr>"

definition defaultCache :: cacheOptions where
  "defaultCache = newCacheOptions None None None None None None None"

definition workerCache :: cacheOptions where
  "workerCache = newCacheOptions None None None None (Some False) (Some True) None"

definition readyManager :: "cacheOptions \<Rightarrow> jsValue cacheManager" where
  "readyManager opts = init browser noFaults opts newCacheManager"

definition plain :: setOptions where
  "plain = \<lparr> o_ttl = None, o_type = None, o_priority = None \<rparr>"

definition databaseOnly :: cacheOptions where
  "databaseOnly = newCacheOptions None None None (Some False) None None None"

definition storedManager :: "cacheOptions \<Rightarrow> jsValue cacheManager" where
  "storedManager opts =
     snd (cacheSet browser noFaults opts 1000 ''news'' (Text ''abc'') plain (readyManager opts))"

text \<open>A read that the memory cache answers: an entry under the key that is not expired.\<close>

definition memoryHit :: "cacheOptions \<Rightarrow> int \<Rightarrow> string \<Rightarrow> 'v cacheManager \<Rightarrow> bool" where
  "memoryHit opts time k m =
     (enableMemoryCache opts \<and>
      (case map_of (memoryCache (cacheState m)) k of
         Some memoryItem \<Rightarrow> \<not> isExpired time memoryItem
       | None \<Rightarrow> False))"

chapter \<open>Properties\<close>

section \<open>Properties of ChangeDetector\<close>

subsection \<open>Termination of deepEqual\<close>

lemma size_in_props:
  "(k, v) \<in> set kvs \<Longrightarrow> size (v::json) < Suc (size_list (size_prod (\<lambda>_. 0) size) kvs)"
  by (induction kvs) auto

lemma size_in_zip: "(k, v) \<in> set (zip ks xs) \<Longrightarrow> size (v::json) < Suc (size_list size xs)"
  by (induction ks xs rule: list_induct2') auto

lemma getProp_size: "getProp a k = Some v \<Longrightarrow> size v < size a"
proof (cases a)
  case (JArr xs)
  assume "getProp a k = Some v"
  with JArr show ?thesis
    by (auto simp: getProp_def split: option.splits if_splits dest!: map_of_SomeD size_in_zip)
next
  case (JObj kvs)
  assume "getProp a k = Some v"
  with JObj show ?thesis
    by (auto simp: getProp_def split: option.splits dest!: map_of_SomeD size_in_props)
qed (auto simp: getProp_def)

termination deepEqual
  apply (relation "measure (\<lambda>(ign, x, y). weight x)")
   apply simp
  apply auto
  subgoal for ign a b k
    by (cases "getProp a k") (auto dest: getProp_size)
  done

declare deepEqual.simps [simp del]

subsection \<open>The partition computed by detectChanges\<close>

lemma buildDataMapFrom_distinct:
  "distinct (map fst m) \<Longrightarrow> distinct (map fst (buildDataMapFrom opts m items))"
  by (induction items arbitrary: m) (auto split: option.splits simp: distinct_update)

lemma buildDataMapFrom_keys:
  "set (map fst (buildDataMapFrom opts m items)) =
     set (map fst m) \<union> {k. k \<noteq> [] \<and> (\<exists>item \<in> set items. getItemKey opts item = Some k)}"
  by (induction items arbitrary: m) (auto split: option.splits simp: dom_update image_iff)

lemma mapKeys_distinct: "distinct (mapKeys opts items)"
  by (simp add: mapKeys_def buildDataMap_def buildDataMapFrom_distinct)

lemma areItemsEqual_returns: "comparatorReturns opts \<Longrightarrow> \<exists>r. areItemsEqual opts a b = Inr r"
  by (auto simp: comparatorReturns_def areItemsEqual_def split: option.splits)

lemma detectNew_returns:
  "comparatorReturns opts \<Longrightarrow> \<exists>ch'. detectNew opts oldMap newData es ch = Inr ch'"
proof (induction es arbitrary: ch)
  case Nil
  show ?case by simp
next
  case (Cons e es)
  obtain k newItem where e: "e = (k, newItem)"
    by (cases e)
  show ?case
  proof (cases "map_of oldMap k")
    case None
    with e Cons show ?thesis by simp
  next
    case (Some oldItem)
    obtain r where "areItemsEqual opts oldItem newItem = Inr r"
      using areItemsEqual_returns [OF Cons.prems] by blast
    with e Some Cons show ?thesis by simp
  qed
qed

lemma extendsBy_added:
  "key e = k \<Longrightarrow> extendsBy k ch (ch\<lparr> added := added ch @ [e], hasChanges := True \<rparr>)"
  by (auto simp: extendsBy_def newKeys3_def addedKeys_def updatedKeys_def unchangedKeys_def flagAgrees_def)

lemma extendsBy_updated:
  "u_key u = k \<Longrightarrow> extendsBy k ch (ch\<lparr> updated := updated ch @ [u], hasChanges := True \<rparr>)"
  by (auto simp: extendsBy_def newKeys3_def addedKeys_def updatedKeys_def unchangedKeys_def flagAgrees_def)

lemma extendsBy_unchanged:
  "key e = k \<Longrightarrow> extendsBy k ch (ch\<lparr> unchanged := unchanged ch @ [e] \<rparr>)"
  by (auto simp: extendsBy_def newKeys3_def addedKeys_def updatedKeys_def unchangedKeys_def flagAgrees_def)

lemma detectNew_step:
  assumes "detectNew opts oldMap newData ((k, newItem) # es) ch = Inr ch'"
  shows "\<exists>ch1. detectNew opts oldMap newData es ch1 = Inr ch' \<and> extendsBy k ch ch1"
proof (cases "map_of oldMap k")
  case None
  with assms show ?thesis
    by (auto intro!: exI extendsBy_added)
next
  case (Some oldItem)
  show ?thesis
  proof (cases "falsy oldItem")
    case True
    with Some assms show ?thesis
      by (auto intro!: exI extendsBy_added)
  next
    case False
    with Some assms obtain same where same: "areItemsEqual opts oldItem newItem = Inr same"
      by (cases "areItemsEqual opts oldItem newItem") auto
    show ?thesis
    proof (cases same)
      case True
      with same False Some assms show ?thesis
        by (auto intro!: exI extendsBy_unchanged)
    next
      case f: False
      with same False Some assms show ?thesis
        by (auto intro!: exI extendsBy_updated)
    qed
  qed
qed

lemma detectNew_keys:
  "detectNew opts oldMap newData es ch = Inr ch' \<Longrightarrow>
     set (newKeys3 ch') = set (newKeys3 ch) \<union> set (map fst es)
     \<and> (distinct (newKeys3 ch @ map fst es) \<longrightarrow> distinct (newKeys3 ch'))
     \<and> removed ch' = removed ch
     \<and> (flagAgrees ch \<longrightarrow> flagAgrees ch')"
proof (induction es arbitrary: ch)
  case Nil
  then show ?case by simp
next
  case (Cons e es)
  obtain k newItem where e: "e = (k, newItem)"
    by (cases e)
  from Cons.prems e obtain ch1 where
    step: "detectNew opts oldMap newData es ch1 = Inr ch'" and ext: "extendsBy k ch ch1"
    using detectNew_step by blast
  from Cons.IH [OF step] have
    ih1: "set (newKeys3 ch') = set (newKeys3 ch1) \<union> set (map fst es)" and
    ih2: "distinct (newKeys3 ch1 @ map fst es) \<longrightarrow> distinct (newKeys3 ch')" and
    ih3: "removed ch' = removed ch1" and
    ih4: "flagAgrees ch1 \<longrightarrow> flagAgrees ch'"
    by blast+
  have "set (newKeys3 ch') = set (newKeys3 ch) \<union> set (map fst (e # es))"
    using ih1 ext e by (auto simp: extendsBy_def)
  moreover have "distinct (newKeys3 ch @ map fst (e # es)) \<longrightarrow> distinct (newKeys3 ch')"
  proof
    assume d: "distinct (newKeys3 ch @ map fst (e # es))"
    then have "distinct (newKeys3 ch1)"
      using ext e by (auto simp: extendsBy_def)
    moreover have "set (newKeys3 ch1) \<inter> set (map fst es) = {}"
      using ext e d by (auto simp: extendsBy_def)
    moreover have "distinct (map fst es)"
      using d by simp
    ultimately show "distinct (newKeys3 ch')"
      using ih2 by simp
  qed
  moreover have "removed ch' = removed ch"
    using ih3 ext by (simp add: extendsBy_def)
  moreover have "flagAgrees ch \<longrightarrow> flagAgrees ch'"
    using ih4 ext by (simp add: extendsBy_def)
  ultimately show ?case
    by blast
qed

lemma detectRemoved_keys:
  "removedKeys (detectRemoved opts newMap oldData es ch) =
     removedKeys ch @ filter (\<lambda>k. map_of newMap k = None) (map fst es)
   \<and> newKeys3 (detectRemoved opts newMap oldData es ch) = newKeys3 ch
   \<and> (flagAgrees ch \<longrightarrow> flagAgrees (detectRemoved opts newMap oldData es ch))"
proof (induction es arbitrary: ch)
  case Nil
  show ?case by simp
next
  case (Cons e es)
  obtain k oldItem where e: "e = (k, oldItem)"
    by (cases e)
  let ?ch1 = "ch\<lparr> removed := removed ch @
                  [\<lparr> key = k, data = oldItem, position = findItemPosition opts oldData k \<rparr>],
               hasChanges := True \<rparr>"
  have r: "removedKeys ?ch1 = removedKeys ch @ [k]" "newKeys3 ?ch1 = newKeys3 ch" "flagAgrees ?ch1"
    by (simp_all add: removedKeys_def newKeys3_def addedKeys_def updatedKeys_def unchangedKeys_def
        flagAgrees_def)
  show ?case
  proof (cases "map_of newMap k")
    case None
    with e Cons.IH [of ?ch1] r show ?thesis by simp
  next
    case (Some y)
    with e Cons.IH [of ch] show ?thesis by simp
  qed
qed

lemma map_of_None_iff: "(map_of m k = None) = (k \<notin> set (map fst m))"
  by (simp add: map_of_eq_None_iff)

text \<open>
  Claim C1. For every pair of collections, the change set of \<open>detectChanges\<close> lists
  every key of the old and the new collection in exactly one of added, updated, removed
  and unchanged: the four key lists together have no duplicate and their keys are the keys
  of the two maps, which are the non-empty keys of the items of the two collections. The flag \<open>hasChanges\<close> holds exactly when added, updated or removed
  is non-empty, and two empty collections give four empty partitions and a false flag.
  The comparator is taken to return: one that throws sends \<open>detectChanges\<close> to its
  \<^verbatim>\<open>catch\<close> block.
\<close>

theorem detectChanges_partition:
  assumes "comparatorReturns opts"
  shows "let cs = detectChanges opts oldData newData;
             ks = addedKeys cs @ updatedKeys cs @ removedKeys cs @ unchangedKeys cs
         in distinct ks
            \<and> set ks = set (mapKeys opts oldData) \<union> set (mapKeys opts newData)
            \<and> set (mapKeys opts oldData) =
                {k. k \<noteq> [] \<and> (\<exists>item \<in> set oldData. getItemKey opts item = Some k)}
            \<and> set (mapKeys opts newData) =
                {k. k \<noteq> [] \<and> (\<exists>item \<in> set newData. getItemKey opts item = Some k)}
            \<and> hasChanges cs = (added cs \<noteq> [] \<or> updated cs \<noteq> [] \<or> removed cs \<noteq> [])
            \<and> (oldData = [] \<and> newData = [] \<longrightarrow>
                 \<not> hasChanges cs \<and> added cs = [] \<and> updated cs = [] \<and> removed cs = []
                 \<and> unchanged cs = [])"
proof -
  let ?oldMap = "buildDataMap opts oldData" and ?newMap = "buildDataMap opts newData"
  let ?e = "emptyChanges oldData newData"
  obtain ch1 where ch1: "detectNew opts ?oldMap newData ?newMap ?e = Inr ch1"
    using detectNew_returns [OF assms] by blast
  let ?ch2 = "detectRemoved opts ?newMap oldData ?oldMap ch1"
  let ?cs = "detectChanges opts oldData newData"
  have cs: "?cs = ?ch2\<lparr> summary := (summary ?ch2)
                     \<lparr> totalAdded := length (added ?ch2), totalUpdated := length (updated ?ch2),
                       totalRemoved := length (removed ?ch2),
                       totalUnchanged := length (unchanged ?ch2) \<rparr> \<rparr>"
    using ch1 by (simp add: detectChanges_def Let_def)
  have e: "newKeys3 ?e = []" "removedKeys ?e = []" "flagAgrees ?e"
    by (simp_all add: emptyChanges_def newKeys3_def addedKeys_def updatedKeys_def unchangedKeys_def
        removedKeys_def flagAgrees_def)
  have dn: "distinct (mapKeys opts newData)" and dold: "distinct (mapKeys opts oldData)"
    by (rule mapKeys_distinct)+
  from detectNew_keys [OF ch1] e dn have
    n1: "set (newKeys3 ch1) = set (mapKeys opts newData)" and
    n2: "distinct (newKeys3 ch1)" and
    n3: "removedKeys ch1 = []" and
    n4: "flagAgrees ch1"
    by (simp_all add: mapKeys_def removedKeys_def emptyChanges_def)
  from detectRemoved_keys [of opts ?newMap oldData ?oldMap ch1] n3 n4 have
    r1: "removedKeys ?ch2 = filter (\<lambda>k. k \<notin> set (mapKeys opts newData)) (mapKeys opts oldData)" and
    r2: "newKeys3 ?ch2 = newKeys3 ch1" and
    r3: "flagAgrees ?ch2"
    by (simp_all add: map_of_None_iff mapKeys_def)
  have k: "addedKeys ?cs = addedKeys ?ch2" "updatedKeys ?cs = updatedKeys ?ch2"
    "removedKeys ?cs = removedKeys ?ch2" "unchangedKeys ?cs = unchangedKeys ?ch2"
    "flagAgrees ?cs = flagAgrees ?ch2"
    by (simp_all add: cs addedKeys_def updatedKeys_def removedKeys_def unchangedKeys_def flagAgrees_def)
  have d3: "distinct (addedKeys ?cs @ updatedKeys ?cs @ unchangedKeys ?cs)"
    and s3: "set (addedKeys ?cs @ updatedKeys ?cs @ unchangedKeys ?cs) = set (mapKeys opts newData)"
    using n1 n2 r2 k by (simp_all add: newKeys3_def)
  have rk: "removedKeys ?cs = filter (\<lambda>k. k \<notin> set (mapKeys opts newData)) (mapKeys opts oldData)"
    using r1 k by simp
  have dist: "distinct (addedKeys ?cs @ updatedKeys ?cs @ removedKeys ?cs @ unchangedKeys ?cs)"
  proof -
    have "distinct (removedKeys ?cs)"
      using rk dold by simp
    moreover have "set (removedKeys ?cs) \<inter> set (addedKeys ?cs @ updatedKeys ?cs @ unchangedKeys ?cs) = {}"
      unfolding s3 using rk by auto
    ultimately show ?thesis
      using d3 by auto
  qed
  have sets: "set (addedKeys ?cs @ updatedKeys ?cs @ removedKeys ?cs @ unchangedKeys ?cs) =
              set (mapKeys opts oldData) \<union> set (mapKeys opts newData)"
  proof -
    have "set (addedKeys ?cs @ updatedKeys ?cs @ removedKeys ?cs @ unchangedKeys ?cs) =
          set (addedKeys ?cs @ updatedKeys ?cs @ unchangedKeys ?cs) \<union> set (removedKeys ?cs)"
      by auto
    also have "\<dots> = set (mapKeys opts newData) \<union> (set (mapKeys opts oldData) - set (mapKeys opts newData))"
      unfolding s3 rk by auto
    finally show ?thesis
      by auto
  qed
  have flag: "hasChanges ?cs = (added ?cs \<noteq> [] \<or> updated ?cs \<noteq> [] \<or> removed ?cs \<noteq> [])"
    using r3 k by (simp add: flagAgrees_def)
  have empty: "oldData = [] \<and> newData = [] \<longrightarrow>
                 \<not> hasChanges ?cs \<and> added ?cs = [] \<and> updated ?cs = [] \<and> removed ?cs = []
                 \<and> unchanged ?cs = []"
    by (simp add: detectChanges_def buildDataMap_def emptyChanges_def)
  have keys: "set (mapKeys opts items) =
              {k. k \<noteq> [] \<and> (\<exists>item \<in> set items. getItemKey opts item = Some k)}" for items
    using buildDataMapFrom_keys [of opts "[]" items] by (simp add: mapKeys_def buildDataMap_def)
  show ?thesis
    unfolding Let_def using dist sets flag empty keys [of oldData] keys [of newData] by blast
qed

theorem detectChanges_partition_witness:
  "comparatorReturns (newChangeDetector None None None None) \<and>
   (let cs = detectChanges (newChangeDetector None None None None)
               [JObj [(''id'', JNum 1), (''title'', JStr ''A'')], JObj [(''id'', JNum 2), (''title'', JStr ''B'')]]
               [JObj [(''id'', JNum 1), (''title'', JStr ''A2'')], JObj [(''id'', JNum 3), (''title'', JStr ''C'')]];
        ks = addedKeys cs @ updatedKeys cs @ removedKeys cs @ unchangedKeys cs
    in distinct ks \<and> set ks = {''1'', ''2'', ''3''} \<and> hasChanges cs \<and> ks = [''3'', ''1'', ''2''])"
proof -
  let ?D = "newChangeDetector None None None None"
  let ?O = "[JObj [(''id'', JNum 1), (''title'', JStr ''A'')], JObj [(''id'', JNum 2), (''title'', JStr ''B'')]]"
  let ?N = "[JObj [(''id'', JNum 1), (''title'', JStr ''A2'')], JObj [(''id'', JNum 3), (''title'', JStr ''C'')]]"
  have c: "comparatorReturns ?D"
    by (simp add: comparatorReturns_def newChangeDetector_def)
  have v: "addedKeys (detectChanges ?D ?O ?N) @ updatedKeys (detectChanges ?D ?O ?N) @
           removedKeys (detectChanges ?D ?O ?N) @ unchangedKeys (detectChanges ?D ?O ?N) =
           [''3'', ''1'', ''2'']"
    by code_simp
  have m: "set (mapKeys ?D ?O) \<union> set (mapKeys ?D ?N) = {''1'', ''2'', ''3''}"
    by code_simp
  have a: "added (detectChanges ?D ?O ?N) \<noteq> []"
    by code_simp
  show ?thesis
    using c detectChanges_partition [OF c, of ?O ?N] v m a by (simp add: Let_def)
qed

subsection \<open>The fast path against the full diff\<close>

lemma hasChangesLoop_eq:
  assumes "comparatorReturns opts"
  shows "hasChangesLoop opts oldMap es = Inr (list_ex (differs opts oldMap) es)"
proof (induction es)
  case Nil
  show ?case by simp
next
  case (Cons e es)
  obtain k newItem where e: "e = (k, newItem)"
    by (cases e)
  show ?case
  proof (cases "map_of oldMap k")
    case None
    with e show ?thesis by (simp add: differs_def)
  next
    case (Some oldItem)
    obtain r where r: "areItemsEqual opts oldItem newItem = Inr r"
      using areItemsEqual_returns [OF assms] by blast
    with e Some Cons show ?thesis by (simp add: differs_def)
  qed
qed

lemma detectNew_flag:
  assumes "detectNew opts oldMap newData es ch = Inr ch'"
  shows "hasChanges ch' = (hasChanges ch \<or> list_ex (differs opts oldMap) es)"
  using assms
proof (induction es arbitrary: ch)
  case Nil
  then show ?case by simp
next
  case (Cons e es)
  obtain k newItem where e: "e = (k, newItem)"
    by (cases e)
  show ?case
  proof (cases "map_of oldMap k")
    case None
    with e Cons.prems Cons.IH show ?thesis by (simp add: differs_def)
  next
    case (Some oldItem)
    show ?thesis
    proof (cases "falsy oldItem")
      case True
      with Some e Cons.prems Cons.IH show ?thesis by (simp add: differs_def)
    next
      case False
      with Some e Cons.prems obtain r where r: "areItemsEqual opts oldItem newItem = Inr r"
        by (cases "areItemsEqual opts oldItem newItem") auto
      show ?thesis
      proof (cases r)
        case True
        with r False Some e Cons.prems Cons.IH show ?thesis by (simp add: differs_def)
      next
        case f: False
        with r False Some e Cons.prems Cons.IH show ?thesis by (simp add: differs_def)
      qed
    qed
  qed
qed

lemma detectRemoved_flag:
  "hasChanges (detectRemoved opts newMap oldData es ch) =
     (hasChanges ch \<or> list_ex (\<lambda>e. map_of newMap (fst e) = None) es)"
proof (induction es arbitrary: ch)
  case Nil
  show ?case by simp
next
  case (Cons e es)
  obtain k oldItem where e: "e = (k, oldItem)"
    by (cases e)
  show ?case
  proof (cases "map_of newMap k")
    case None
    with e Cons show ?thesis by simp
  next
    case (Some y)
    with e Cons show ?thesis by simp
  qed
qed

lemma detectChanges_flag:
  assumes "comparatorReturns opts"
  shows "hasChanges (detectChanges opts oldData newData) =
           (list_ex (differs opts (buildDataMap opts oldData)) (buildDataMap opts newData) \<or>
            list_ex (\<lambda>e. map_of (buildDataMap opts newData) (fst e) = None) (buildDataMap opts oldData))"
proof -
  let ?oldMap = "buildDataMap opts oldData" and ?newMap = "buildDataMap opts newData"
  obtain ch1 where ch1: "detectNew opts ?oldMap newData ?newMap (emptyChanges oldData newData) = Inr ch1"
    using detectNew_returns [OF assms] by blast
  have "hasChanges (detectChanges opts oldData newData) =
        hasChanges (detectRemoved opts ?newMap oldData ?oldMap ch1)"
    using ch1 by (simp add: detectChanges_def Let_def)
  also have "\<dots> = (hasChanges ch1 \<or> list_ex (\<lambda>e. map_of ?newMap (fst e) = None) ?oldMap)"
    by (rule detectRemoved_flag)
  also have "hasChanges ch1 = list_ex (differs opts ?oldMap) ?newMap"
    using detectNew_flag [OF ch1] by (simp add: emptyChanges_def)
  finally show ?thesis .
qed

lemma keys_subset_eq:
  assumes "distinct (map fst m1)" "distinct (map fst m2)" "length m1 = length m2"
    and "set (map fst m2) \<subseteq> set (map fst m1)"
  shows "set (map fst m1) = set (map fst m2)"
proof -
  have "card (set (map fst m1)) = length m1" "card (set (map fst m2)) = length m2"
    using assms(1,2) distinct_card [of "map fst m1"] distinct_card [of "map fst m2"] by simp_all
  with assms(3,4) show ?thesis
    by (metis List.finite_set card_subset_eq)
qed

lemma keys_length_differ:
  assumes "distinct (map fst m1)" "distinct (map fst m2)" "length m1 \<noteq> length m2"
  shows "set (map fst m1) \<noteq> set (map fst m2)"
proof
  assume "set (map fst m1) = set (map fst m2)"
  then have "card (set (map fst m1)) = card (set (map fst m2))"
    by simp
  with assms show False
    using distinct_card [of "map fst m1"] distinct_card [of "map fst m2"] by simp
qed

text \<open>
  Claim C5, as the code has it. The fast path answers true exactly when the two
  collections differ in length or the full diff has changes; so the two agree on
  collections in which every item has a key of its own (the map of each collection is as
  long as the collection), and the fast path can answer true where the full diff finds
  nothing when an item has no key or shares one.
\<close>

theorem hasChanges_fast_path:
  assumes "comparatorReturns opts"
  shows "hasChangesFast opts oldData newData =
           Inr (length oldData \<noteq> length newData \<or> hasChanges (detectChanges opts oldData newData))
         \<and> (length (buildDataMap opts oldData) = length oldData \<and>
              length (buildDataMap opts newData) = length newData \<longrightarrow>
              hasChangesFast opts oldData newData =
                Inr (hasChanges (detectChanges opts oldData newData)))"
proof -
  let ?oldMap = "buildDataMap opts oldData" and ?newMap = "buildDataMap opts newData"
  let ?D = "list_ex (differs opts ?oldMap) ?newMap"
  let ?R = "list_ex (\<lambda>e. map_of ?newMap (fst e) = None) ?oldMap"
  have flag: "hasChanges (detectChanges opts oldData newData) = (?D \<or> ?R)"
    by (rule detectChanges_flag [OF assms])
  have dold: "distinct (map fst ?oldMap)" and dnew: "distinct (map fst ?newMap)"
    using mapKeys_distinct [of opts oldData] mapKeys_distinct [of opts newData]
    by (simp_all add: mapKeys_def)
  have sizes: "length ?oldMap \<noteq> length ?newMap \<Longrightarrow> ?D \<or> ?R"
  proof -
    assume "length ?oldMap \<noteq> length ?newMap"
    then have "set (map fst ?oldMap) \<noteq> set (map fst ?newMap)"
      by (rule keys_length_differ [OF dold dnew])
    then consider k where "k \<in> set (map fst ?newMap)" "k \<notin> set (map fst ?oldMap)"
      | k where "k \<in> set (map fst ?oldMap)" "k \<notin> set (map fst ?newMap)"
      by blast
    then show "?D \<or> ?R"
    proof cases
      case 1
      then obtain e where "e \<in> set ?newMap" "map_of ?oldMap (fst e) = None"
        by (auto simp: map_of_None_iff)
      then have "differs opts ?oldMap e" "e \<in> set ?newMap"
        by (simp_all add: differs_def)
      then have ?D
        unfolding list_ex_iff by blast
      then show ?thesis ..
    next
      case 2
      then obtain e where "e \<in> set ?oldMap" "map_of ?newMap (fst e) = None"
        by (auto simp: map_of_None_iff)
      then have ?R
        by (auto simp: list_ex_iff)
      then show ?thesis ..
    qed
  qed
  have same: "length ?oldMap = length ?newMap \<Longrightarrow> \<not> ?D \<Longrightarrow> \<not> ?R"
  proof -
    assume len: "length ?oldMap = length ?newMap" and nd: "\<not> ?D"
    have "set (map fst ?newMap) \<subseteq> set (map fst ?oldMap)"
    proof
      fix k
      assume "k \<in> set (map fst ?newMap)"
      then obtain e where e: "e \<in> set ?newMap" "fst e = k"
        by auto
      with nd have "\<not> differs opts ?oldMap e"
        by (auto simp: list_ex_iff)
      then have "map_of ?oldMap (fst e) \<noteq> None"
        by (auto simp: differs_def split: option.splits)
      with e show "k \<in> set (map fst ?oldMap)"
        by (simp add: map_of_None_iff)
    qed
    then have "set (map fst ?oldMap) = set (map fst ?newMap)"
      by (rule keys_subset_eq [OF dold dnew len])
    then show "\<not> ?R"
      by (auto simp: list_ex_iff map_of_None_iff)
  qed
  have fast: "hasChangesFast opts oldData newData =
        Inr (length oldData \<noteq> length newData \<or> length ?oldMap \<noteq> length ?newMap \<or> ?D)"
    by (simp add: hasChangesFast_def Let_def hasChangesLoop_eq [OF assms])
  have main: "hasChangesFast opts oldData newData =
           Inr (length oldData \<noteq> length newData \<or> hasChanges (detectChanges opts oldData newData))"
    unfolding fast flag using sizes same by auto
  have own: "length ?oldMap = length oldData \<and> length ?newMap = length newData \<longrightarrow>
              hasChangesFast opts oldData newData =
                Inr (hasChanges (detectChanges opts oldData newData))"
    unfolding main flag using sizes by auto
  from main own show ?thesis ..
qed

theorem hasChanges_fast_path_witness:
  "comparatorReturns (newChangeDetector None None None None) \<and>
   length (buildDataMap (newChangeDetector None None None None)
     [JObj [(''id'', JNum 1), (''title'', JStr ''A'')], JObj [(''id'', JNum 2), (''title'', JStr ''B'')]]) = 2 \<and>
   length (buildDataMap (newChangeDetector None None None None)
     [JObj [(''id'', JNum 1), (''title'', JStr ''A2'')], JObj [(''id'', JNum 3), (''title'', JStr ''C'')]]) = 2 \<and>
   hasChangesFast (newChangeDetector None None None None)
     [JObj [(''id'', JNum 1), (''title'', JStr ''A'')], JObj [(''id'', JNum 2), (''title'', JStr ''B'')]]
     [JObj [(''id'', JNum 1), (''title'', JStr ''A2'')], JObj [(''id'', JNum 3), (''title'', JStr ''C'')]] =
   Inr (hasChanges (detectChanges (newChangeDetector None None None None)
     [JObj [(''id'', JNum 1), (''title'', JStr ''A'')], JObj [(''id'', JNum 2), (''title'', JStr ''B'')]]
     [JObj [(''id'', JNum 1), (''title'', JStr ''A2'')], JObj [(''id'', JNum 3), (''title'', JStr ''C'')]]))"
proof -
  let ?D = "newChangeDetector None None None None"
  let ?O = "[JObj [(''id'', JNum 1), (''title'', JStr ''A'')], JObj [(''id'', JNum 2), (''title'', JStr ''B'')]]"
  let ?N = "[JObj [(''id'', JNum 1), (''title'', JStr ''A2'')], JObj [(''id'', JNum 3), (''title'', JStr ''C'')]]"
  have c: "comparatorReturns ?D"
    by (simp add: comparatorReturns_def newChangeDetector_def)
  have l: "length (buildDataMap ?D ?O) = 2" "length (buildDataMap ?D ?N) = 2"
    by code_simp+
  show ?thesis
    using c l hasChanges_fast_path [OF c, of ?O ?N] by simp
qed

text \<open>
  Claim C5 as stated fails: a new collection that repeats the one item of the old
  collection differs from it in length, so the fast path answers true, while both maps
  hold the same single entry and the full diff reports no change.
\<close>

theorem hasChanges_fast_path_counterexample:
  "hasChangesFast (newChangeDetector None None None None)
     [JObj [(''id'', JNum 1)]] [JObj [(''id'', JNum 1)], JObj [(''id'', JNum 1)]] = Inr True \<and>
   \<not> hasChanges (detectChanges (newChangeDetector None None None None)
     [JObj [(''id'', JNum 1)]] [JObj [(''id'', JNum 1)], JObj [(''id'', JNum 1)]])"
  by code_simp

section \<open>Properties of PollingService\<close>

subsection \<open>Steps of the event loop\<close>






lemma earliest_mem: "earliest ps = Some p \<Longrightarrow> p \<in> set ps"
  by (induction ps arbitrary: p) (auto split: option.splits if_splits)

lemma earliest_Nil: "(earliest ps = None) = (ps = [])"
  by (induction ps) (auto split: option.splits)

lemma backlog_filter:
  "sum_list (map (\<lambda>p. weightOf (snd (snd p))) (filter P ps)) \<le>
   sum_list (map (\<lambda>p. weightOf (snd (snd p))) ps)"
  by (induction ps) auto

lemma backlog_remove:
  "(i, due, t) \<in> set ps \<Longrightarrow>
   sum_list (map (\<lambda>p. weightOf (snd (snd p))) (filter (\<lambda>p. fst p \<noteq> i) ps)) + weightOf t \<le>
   sum_list (map (\<lambda>p. weightOf (snd (snd p))) ps)"
proof (induction ps)
  case Nil
  then show ?case by simp
next
  case (Cons p ps)
  show ?case
  proof (cases "p = (i, due, t)")
    case True
    then show ?thesis
      using backlog_filter [of "\<lambda>p. fst p \<noteq> i" ps] by simp
  next
    case False
    with Cons show ?thesis by auto
  qed
qed

lemma step_earliest:
  "earliest (pending s) = Some (i, due, t) \<Longrightarrow>
   step opts s = Some (wake opts t (s\<lparr> now := max (now s) due,
                                         pending := filter (\<lambda>p. fst p \<noteq> i) (pending s) \<rparr>))"
  by (simp add: step_def)

lemma ids_extend:
  assumes "distinct (map fst ps)" and "list_all (\<lambda>p. fst p < n) ps"
  shows "distinct (map fst (filter Q ps @ [(n, d, t)]))"
    and "list_all (\<lambda>p. fst p < Suc n) (filter Q ps @ [(n, d, t)])"
proof -
  have "n \<notin> fst ` set ps"
    using assms(2) by (auto simp: list_all_iff)
  then have "n \<notin> fst ` set (filter Q ps)"
    by auto
  with assms(1) show "distinct (map fst (filter Q ps @ [(n, d, t)]))"
    by (simp add: distinct_map_filter)
  show "list_all (\<lambda>p. fst p < Suc n) (filter Q ps @ [(n, d, t)])"
    using assms(2) by (auto simp: list_all_iff less_Suc_eq)
qed

lemma ids_filter:
  assumes "distinct (map fst ps)" and "list_all (\<lambda>p. fst p < n) ps"
  shows "distinct (map fst (filter Q ps))" and "list_all (\<lambda>p. fst p < n) (filter Q ps)"
  using assms by (auto simp: list_all_iff distinct_map_filter)

lemma noSuccess_filter:
  "list_all (\<lambda>p. \<not> isSuccess (snd (snd p))) ps \<Longrightarrow>
   list_all (\<lambda>p. \<not> isSuccess (snd (snd p))) (filter Q ps)"
  by (auto simp: list_all_iff)

lemma cycle_kept:
  assumes "distinct (map fst ps)" and "(i, due, ActivityTimeout) \<in> set ps"
    and "list_ex (\<lambda>p. cycleTask (snd (snd p))) ps"
  shows "list_ex (\<lambda>p. cycleTask (snd (snd p))) (filter (\<lambda>p. fst p \<noteq> i) ps)"
proof -
  from assms(3) obtain j d t where q: "(j, d, t) \<in> set ps" and c: "cycleTask t"
    by (auto simp: list_ex_iff)
  have "j \<noteq> i"
  proof
    assume "j = i"
    with q assms(1,2) have "(d, t) = (due, ActivityTimeout)"
      by (metis eq_key_imp_eq_value)
    with c show False by simp
  qed
  with q c show ?thesis
    by (force simp: list_ex_iff)
qed

lemma retrying_poll_timer:
  assumes f: "fetchFunction opts = Some f" and inv: "retrying opts f s"
    and e: "earliest (pending s) = Some (i, due, PollTimer)"
  shows "\<exists>s1. step opts s = Some s1 \<and> retrying opts f s1
           \<and> retryCount (pollState s1) = retryCount (pollState s)
           \<and> callbacks s1 = callbacks s \<and> backlog s1 < backlog s"
proof -
  let ?ps = "filter (\<lambda>p. fst p \<noteq> i) (pending s)"
  let ?c = "fetchCalls s"
  define s1 where "s1 = wake opts PollTimer (s\<lparr> now := max (now s) due, pending := ?ps \<rparr>)"
  from inv have act: "isActive (pollState s)"
    and below: "retryCount (pollState s) < maxRetries (pollingConfig opts)"
    and d: "distinct (map fst (pending s))" and l: "list_all (\<lambda>p. fst p < nextId s) (pending s)"
    and rej: "\<forall>n \<ge> fetchCalls s. \<exists>e. snd (f n) = Rejected e"
    and ns: "list_all (\<lambda>p. \<not> isSuccess (snd (snd p))) (pending s)"
    by (simp_all add: retrying_def cyclePending_def fetchesFail_def)
  from rej obtain e' where e': "snd (f ?c) = Rejected e'"
    by blast
  have st: "step opts s = Some s1"
    unfolding s1_def by (rule step_earliest [OF e])
  have p1: "pending s1 = ?ps @ [(nextId s, max (now s) due + fst (f ?c), FetchSettled (Rejected e'))]"
    and n1: "nextId s1 = Suc (nextId s)" and c1: "fetchCalls s1 = Suc ?c"
    and a1: "isActive (pollState s1)" and r1: "retryCount (pollState s1) = retryCount (pollState s)"
    and cb1: "callbacks s1 = callbacks s"
    using f act e' by (simp_all add: s1_def executePollingCycle_def schedule_def Let_def)
  have cp: "cyclePending s1"
    unfolding cyclePending_def p1 n1
    using ids_extend [OF d l, of "\<lambda>p. fst p \<noteq> i"] by simp
  have ff: "fetchesFail f s1"
    unfolding fetchesFail_def p1 c1 using rej noSuccess_filter [OF ns] by simp
  have "backlog s1 + 1 \<le> backlog s"
    using backlog_remove [OF earliest_mem [OF e]] by (simp add: backlog_def p1)
  with st a1 r1 cb1 cp ff below show ?thesis
    by (auto simp: retrying_def)
qed

lemma retrying_retry_delay:
  assumes inv: "retrying opts f s"
    and e: "earliest (pending s) = Some (i, due, RetryDelay)"
  shows "\<exists>s1. step opts s = Some s1 \<and> retrying opts f s1
           \<and> retryCount (pollState s1) = retryCount (pollState s)
           \<and> callbacks s1 = callbacks s \<and> backlog s1 < backlog s"
proof -
  let ?ps = "filter (\<lambda>p. fst p \<noteq> i) (pending s)"
  define s1 where "s1 = wake opts RetryDelay (s\<lparr> now := max (now s) due, pending := ?ps \<rparr>)"
  from inv have act: "isActive (pollState s)"
    and below: "retryCount (pollState s) < maxRetries (pollingConfig opts)"
    and d: "distinct (map fst (pending s))" and l: "list_all (\<lambda>p. fst p < nextId s) (pending s)"
    and rej: "\<forall>n \<ge> fetchCalls s. \<exists>e. snd (f n) = Rejected e"
    and ns: "list_all (\<lambda>p. \<not> isSuccess (snd (snd p))) (pending s)"
    by (simp_all add: retrying_def cyclePending_def fetchesFail_def)
  have st: "step opts s = Some s1"
    unfolding s1_def by (rule step_earliest [OF e])
  have p1: "pending s1 = ?ps @ [(nextId s, max (now s) due + currentInterval (pollState s), PollTimer)]"
    and n1: "nextId s1 = Suc (nextId s)" and c1: "fetchCalls s1 = fetchCalls s"
    and a1: "isActive (pollState s1)" and r1: "retryCount (pollState s1) = retryCount (pollState s)"
    and cb1: "callbacks s1 = callbacks s"
    using act by (simp_all add: s1_def finallyBlock_def schedule_def)
  have cp: "cyclePending s1"
    unfolding cyclePending_def p1 n1
    using ids_extend [OF d l, of "\<lambda>p. fst p \<noteq> i"] by simp
  have ff: "fetchesFail f s1"
    unfolding fetchesFail_def p1 c1 using rej noSuccess_filter [OF ns] by simp
  have "backlog s1 + 1 \<le> backlog s"
    using backlog_remove [OF earliest_mem [OF e]] by (simp add: backlog_def p1)
  with st a1 r1 cb1 cp ff below show ?thesis
    by (auto simp: retrying_def)
qed

lemma retrying_failure_retry:
  assumes inv: "retrying opts f s"
    and e: "earliest (pending s) = Some (i, due, FetchSettled (Rejected err))"
    and more: "retryCount (pollState s) + 1 < maxRetries (pollingConfig opts)"
  shows "\<exists>s1. step opts s = Some s1 \<and> retrying opts f s1
           \<and> retryCount (pollState s1) = retryCount (pollState s) + 1
           \<and> callbacks s1 = callbacks s"
proof -
  let ?ps = "filter (\<lambda>p. fst p \<noteq> i) (pending s)"
  define s1 where
    "s1 = wake opts (FetchSettled (Rejected err)) (s\<lparr> now := max (now s) due, pending := ?ps \<rparr>)"
  from inv have act: "isActive (pollState s)"
    and d: "distinct (map fst (pending s))" and l: "list_all (\<lambda>p. fst p < nextId s) (pending s)"
    and rej: "\<forall>n \<ge> fetchCalls s. \<exists>e. snd (f n) = Rejected e"
    and ns: "list_all (\<lambda>p. \<not> isSuccess (snd (snd p))) (pending s)"
    by (simp_all add: retrying_def cyclePending_def fetchesFail_def)
  have st: "step opts s = Some s1"
    unfolding s1_def by (rule step_earliest [OF e])
  have p1: "pending s1 = ?ps @ [(nextId s, max (now s) due + retryDelay (pollingConfig opts), RetryDelay)]"
    and n1: "nextId s1 = Suc (nextId s)" and c1: "fetchCalls s1 = fetchCalls s"
    and a1: "isActive (pollState s1)"
    and r1: "retryCount (pollState s1) = retryCount (pollState s) + 1"
    and cb1: "callbacks s1 = callbacks s"
    using act more by (simp_all add: s1_def catchBlock_def handleError_def schedule_def Let_def)
  have cp: "cyclePending s1"
    unfolding cyclePending_def p1 n1
    using ids_extend [OF d l, of "\<lambda>p. fst p \<noteq> i"] by simp
  have ff: "fetchesFail f s1"
    unfolding fetchesFail_def p1 c1 using rej noSuccess_filter [OF ns] by simp
  from st a1 r1 cb1 cp ff more show ?thesis
    by (auto simp: retrying_def)
qed

lemma failure_stops:
  assumes e: "earliest (pending s) = Some (i, due, FetchSettled (Rejected err))"
    and last: "maxRetries (pollingConfig opts) \<le> retryCount (pollState s) + 1"
  shows "\<exists>s1. step opts s = Some s1 \<and> \<not> isActive (pollState s1)
           \<and> retryCount (pollState s1) = retryCount (pollState s) + 1
           \<and> lastError (pollState s1) = Some err
           \<and> timerId (pollState s1) = None \<and> nextId s1 = nextId s
           \<and> fetchCalls s1 = fetchCalls s
           \<and> pending s1 = filter (\<lambda>p. fst p \<noteq> i \<and> Some (fst p) \<noteq> timerId (pollState s)) (pending s)
           \<and> callbacks s1 = callbacks s @
                (if onError opts then [OnError err ''max_retries_exceeded''] else [])"
proof -
  let ?ps = "filter (\<lambda>p. fst p \<noteq> i) (pending s)"
  define s1 where
    "s1 = wake opts (FetchSettled (Rejected err)) (s\<lparr> now := max (now s) due, pending := ?ps \<rparr>)"
  have st: "step opts s = Some s1"
    unfolding s1_def by (rule step_earliest [OF e])
  have "\<not> isActive (pollState s1)" "retryCount (pollState s1) = retryCount (pollState s) + 1"
    "lastError (pollState s1) = Some err"
    "timerId (pollState s1) = None" "nextId s1 = nextId s" "fetchCalls s1 = fetchCalls s"
    "pending s1 = filter (\<lambda>p. fst p \<noteq> i \<and> Some (fst p) \<noteq> timerId (pollState s)) (pending s)"
    "callbacks s1 = callbacks s @ (if onError opts then [OnError err ''max_retries_exceeded''] else [])"
    using last
    by (cases "timerId (pollState s)";
        simp add: s1_def catchBlock_def handleError_def pause_def clearTimeout_def
          finallyBlock_def Let_def; metis)+
  with st show ?thesis
    by blast
qed

lemma restart_active:
  assumes f: "fetchFunction opts = Some f" and act: "isActive (pollState s)"
  shows "pending (restart opts s) =
           filter (\<lambda>p. Some (fst p) \<noteq> timerId (pollState s)) (pending s) @
             [(nextId s, now s + fst (f (fetchCalls s)), FetchSettled (snd (f (fetchCalls s))))]"
    and "nextId (restart opts s) = Suc (nextId s)"
    and "fetchCalls (restart opts s) = Suc (fetchCalls s)"
    and "isActive (pollState (restart opts s))"
    and "retryCount (pollState (restart opts s)) = retryCount (pollState s)"
    and "callbacks (restart opts s) = callbacks s"
  using f
  by (cases "timerId (pollState s)";
      simp add: restart_def resume_def pause_def clearTimeout_def executePollingCycle_def
        schedule_def Let_def)+

lemma adjust_active:
  assumes "isActive (pollState s)"
  shows "adjustPollingInterval opts s = s
         \<or> (\<exists>v. adjustPollingInterval opts s =
                  restart opts (s\<lparr> pollState := (pollState s)\<lparr> currentInterval := v \<rparr> \<rparr>))"
proof (cases "adjustPollingInterval opts s = s")
  case True
  then show ?thesis by simp
next
  case False
  then have "adjustPollingInterval opts s =
    restart opts (s\<lparr> pollState := (pollState s)\<lparr> currentInterval :=
       (if \<not> isOnline (pollState s) then backgroundInterval (pollingConfig opts) * 2
             else if \<not> isVisible (pollState s) then backgroundInterval (pollingConfig opts)
             else if isUserActive (pollState s) then activeInterval (pollingConfig opts)
             else normalInterval (pollingConfig opts)) \<rparr> \<rparr>)"
    using assms unfolding adjustPollingInterval_def Let_def by (simp split: if_splits)
  then show ?thesis by blast
qed

lemma retrying_activity_timeout:
  assumes f: "fetchFunction opts = Some f" and inv: "retrying opts f s"
    and e: "earliest (pending s) = Some (i, due, ActivityTimeout)"
  shows "\<exists>s1. step opts s = Some s1 \<and> retrying opts f s1
           \<and> retryCount (pollState s1) = retryCount (pollState s)
           \<and> callbacks s1 = callbacks s \<and> backlog s1 < backlog s"
proof -
  let ?ps = "filter (\<lambda>p. fst p \<noteq> i) (pending s)"
  let ?c = "fetchCalls s"
  define s0 where "s0 = (s\<lparr> now := max (now s) due, pending := ?ps \<rparr>)
                          \<lparr> pollState := (pollState s)\<lparr> isUserActive := False \<rparr> \<rparr>"
  define s1 where "s1 = wake opts ActivityTimeout (s\<lparr> now := max (now s) due, pending := ?ps \<rparr>)"
  from inv have act: "isActive (pollState s)"
    and below: "retryCount (pollState s) < maxRetries (pollingConfig opts)"
    and d: "distinct (map fst (pending s))" and l: "list_all (\<lambda>p. fst p < nextId s) (pending s)"
    and cy: "list_ex (\<lambda>p. cycleTask (snd (snd p))) (pending s)"
    and rej: "\<forall>n \<ge> fetchCalls s. \<exists>e. snd (f n) = Rejected e"
    and ns: "list_all (\<lambda>p. \<not> isSuccess (snd (snd p))) (pending s)"
    by (simp_all add: retrying_def cyclePending_def fetchesFail_def)
  from rej obtain e' where e': "snd (f ?c) = Rejected e'"
    by blast
  have st: "step opts s = Some s1"
    unfolding s1_def by (rule step_earliest [OF e])
  have mem: "(i, due, ActivityTimeout) \<in> set (pending s)"
    by (rule earliest_mem [OF e])
  have rem: "sum_list (map (\<lambda>p. weightOf (snd (snd p))) ?ps) + 2 \<le> backlog s"
    using backlog_remove [OF mem] by (simp add: backlog_def)
  have s1: "s1 = adjustPollingInterval opts s0"
    by (simp add: s1_def s0_def onActivityTimeout_def)
  have a0: "isActive (pollState s0)" and p0: "pending s0 = ?ps" and n0: "nextId s0 = nextId s"
    and c0: "fetchCalls s0 = ?c" and r0: "retryCount (pollState s0) = retryCount (pollState s)"
    and cb0: "callbacks s0 = callbacks s" and t0: "now s0 = max (now s) due"
    and ti0: "timerId (pollState s0) = timerId (pollState s)"
    using act by (simp_all add: s0_def)
  consider (same) "s1 = s0"
    | (changed) v where "s1 = restart opts (s0\<lparr> pollState := (pollState s0)\<lparr> currentInterval := v \<rparr> \<rparr>)"
    using adjust_active [OF a0, of opts] unfolding s1 by blast
  then show ?thesis
  proof cases
    case same
    have cp: "cyclePending s1"
      unfolding cyclePending_def same p0 n0
      using ids_filter [OF d l, of "\<lambda>p. fst p \<noteq> i"] cycle_kept [OF d mem cy] by simp
    have ff: "fetchesFail f s1"
      unfolding fetchesFail_def same p0 c0 using rej noSuccess_filter [OF ns] by simp
    have "backlog s1 < backlog s"
      using rem by (simp add: backlog_def same p0)
    with st same a0 r0 cb0 cp ff below show ?thesis
      by (auto simp: retrying_def)
  next
    case (changed v)
    let ?s = "s0\<lparr> pollState := (pollState s0)\<lparr> currentInterval := v \<rparr> \<rparr>"
    have a: "isActive (pollState ?s)"
      using a0 by simp
    note r = restart_active [OF f a]
    let ?qs = "filter (\<lambda>p. fst p \<noteq> i \<and> Some (fst p) \<noteq> timerId (pollState s)) (pending s)"
    have p1: "pending s1 = ?qs @ [(nextId s, max (now s) due + fst (f ?c), FetchSettled (Rejected e'))]"
      using r(1) e' by (simp add: changed p0 n0 c0 t0 ti0 conj_commute)
    have n1: "nextId s1 = Suc (nextId s)" and c1: "fetchCalls s1 = Suc ?c"
      and a1: "isActive (pollState s1)" and r1: "retryCount (pollState s1) = retryCount (pollState s)"
      and cb1: "callbacks s1 = callbacks s"
      using r(2-6) by (simp_all add: changed n0 c0 r0 cb0)
    have cp: "cyclePending s1"
      unfolding cyclePending_def p1 n1
      using ids_extend [OF d l, of "\<lambda>p. fst p \<noteq> i \<and> Some (fst p) \<noteq> timerId (pollState s)"] by simp
    have ff: "fetchesFail f s1"
      unfolding fetchesFail_def p1 c1 using rej noSuccess_filter [OF ns] by simp
    have "?qs = filter (\<lambda>p. Some (fst p) \<noteq> timerId (pollState s)) ?ps"
      by (simp add: conj_commute)
    then have "sum_list (map (\<lambda>p. weightOf (snd (snd p))) ?qs) \<le>
               sum_list (map (\<lambda>p. weightOf (snd (snd p))) ?ps)"
      using backlog_filter [of "\<lambda>p. Some (fst p) \<noteq> timerId (pollState s)" ?ps] by simp
    with rem have "backlog s1 < backlog s"
      by (simp add: backlog_def p1)
    with st a1 r1 cb1 cp ff below show ?thesis
      by (auto simp: retrying_def)
  qed
qed

lemma retrying_step:
  assumes f: "fetchFunction opts = Some f" and inv: "retrying opts f s"
  shows "\<exists>i due t s1. earliest (pending s) = Some (i, due, t) \<and> step opts s = Some s1
           \<and> ((\<exists>e. t = FetchSettled (Rejected e)
                  \<and> retryCount (pollState s) + 1 = maxRetries (pollingConfig opts))
               \<or> (retrying opts f s1 \<and> callbacks s1 = callbacks s
                  \<and> retryCount (pollState s1) = retryCount (pollState s) + (if isFailure t then 1 else 0)
                  \<and> (isFailure t \<or> backlog s1 < backlog s)))"
proof -
  from inv have "pending s \<noteq> []"
    by (auto simp: retrying_def cyclePending_def)
  then obtain i due t where e: "earliest (pending s) = Some (i, due, t)"
    using earliest_Nil [of "pending s"] by (cases "earliest (pending s)") auto
  from inv earliest_mem [OF e] have ns: "\<not> isSuccess t"
    by (auto simp: retrying_def fetchesFail_def list_all_iff)
  from inv have below: "retryCount (pollState s) < maxRetries (pollingConfig opts)"
    by (simp add: retrying_def)
  show ?thesis
  proof (cases t)
    case PollTimer
    with retrying_poll_timer [OF f inv] e show ?thesis
      by fastforce
  next
    case RetryDelay
    with retrying_retry_delay [OF inv] e show ?thesis
      by fastforce
  next
    case ActivityTimeout
    with retrying_activity_timeout [OF f inv] e show ?thesis
      by fastforce
  next
    case (FetchSettled r)
    with ns obtain err where r: "t = FetchSettled (Rejected err)"
      by (cases r) auto
    show ?thesis
    proof (cases "retryCount (pollState s) + 1 < maxRetries (pollingConfig opts)")
      case True
      from retrying_failure_retry [OF inv e [unfolded r] True] e r show ?thesis
        by fastforce
    next
      case False
      with below have "retryCount (pollState s) + 1 = maxRetries (pollingConfig opts)"
        by simp
      moreover from e obtain s1 where "step opts s = Some s1"
        by (auto simp: step_def)
      ultimately show ?thesis
        using e r by blast
    qed
  qed
qed

lemma retrying_exhausts:
  assumes f: "fetchFunction opts = Some f"
  shows "retrying opts f s \<Longrightarrow>
         \<exists>n sp i due e. run opts n s = Some sp
           \<and> earliest (pending sp) = Some (i, due, FetchSettled (Rejected e))
           \<and> retryCount (pollState sp) + 1 = maxRetries (pollingConfig opts)
           \<and> callbacks sp = callbacks s
           \<and> (\<forall>k \<le> n. \<exists>sk. run opts k s = Some sk \<and> isActive (pollState sk)
                 \<and> retryCount (pollState sk) = retryCount (pollState s) + failuresHandled opts k s
                 \<and> retryCount (pollState sk) < maxRetries (pollingConfig opts)
                 \<and> callbacks sk = callbacks s)"
proof -
  have "wf (inv_image (less_than <*lex*> less_than)
       (\<lambda>s. (maxRetries (pollingConfig opts) - retryCount (pollState s), backlog s)))"
    by (intro wf_inv_image wf_lex_prod wf_less_than)
  then show "retrying opts f s \<Longrightarrow> ?thesis"
proof (induction s rule: wf_induct_rule)
  case (less s)
  note inv = \<open>retrying opts f s\<close>
  from inv have act: "isActive (pollState s)"
    and below: "retryCount (pollState s) < maxRetries (pollingConfig opts)"
    by (simp_all add: retrying_def)
  from retrying_step [OF f inv] obtain i due t s1 where
    e: "earliest (pending s) = Some (i, due, t)" and st: "step opts s = Some s1"
    and alt: "(\<exists>e. t = FetchSettled (Rejected e)
                  \<and> retryCount (pollState s) + 1 = maxRetries (pollingConfig opts))
               \<or> (retrying opts f s1 \<and> callbacks s1 = callbacks s
                  \<and> retryCount (pollState s1) = retryCount (pollState s) + (if isFailure t then 1 else 0)
                  \<and> (isFailure t \<or> backlog s1 < backlog s))"
    by blast
  from alt show ?case
  proof
    assume "\<exists>e. t = FetchSettled (Rejected e)
                  \<and> retryCount (pollState s) + 1 = maxRetries (pollingConfig opts)"
    then obtain err where t: "t = FetchSettled (Rejected err)"
      and last: "retryCount (pollState s) + 1 = maxRetries (pollingConfig opts)"
      by blast
    have "run opts 0 s = Some s"
      by simp
    moreover have "\<forall>k \<le> (0::nat). \<exists>sk. run opts k s = Some sk \<and> isActive (pollState sk)
                 \<and> retryCount (pollState sk) = retryCount (pollState s) + failuresHandled opts k s
                 \<and> retryCount (pollState sk) < maxRetries (pollingConfig opts)
                 \<and> callbacks sk = callbacks s"
      using act below by simp
    ultimately show ?thesis
      using e t last by blast
  next
    assume c: "retrying opts f s1 \<and> callbacks s1 = callbacks s
                  \<and> retryCount (pollState s1) = retryCount (pollState s) + (if isFailure t then 1 else 0)
                  \<and> (isFailure t \<or> backlog s1 < backlog s)"
    then have inv1: "retrying opts f s1" and cb1: "callbacks s1 = callbacks s"
      and r1: "retryCount (pollState s1) = retryCount (pollState s) + (if isFailure t then 1 else 0)"
      and dec: "isFailure t \<or> backlog s1 < backlog s"
      by simp_all
    have "(s1, s) \<in> inv_image (less_than <*lex*> less_than)
       (\<lambda>s. (maxRetries (pollingConfig opts) - retryCount (pollState s), backlog s))"
      using r1 dec below by auto
    from less.IH [OF this inv1] obtain n sp i' due' e' where
      rn: "run opts n s1 = Some sp"
      and en: "earliest (pending sp) = Some (i', due', FetchSettled (Rejected e'))"
      and ln: "retryCount (pollState sp) + 1 = maxRetries (pollingConfig opts)"
      and cn: "callbacks sp = callbacks s1"
      and an: "\<forall>k \<le> n. \<exists>sk. run opts k s1 = Some sk \<and> isActive (pollState sk)
                 \<and> retryCount (pollState sk) = retryCount (pollState s1) + failuresHandled opts k s1
                 \<and> retryCount (pollState sk) < maxRetries (pollingConfig opts)
                 \<and> callbacks sk = callbacks s1"
      by blast
    have rS: "run opts (Suc n) s = Some sp"
      using st rn by simp
    have "\<exists>sk. run opts k s = Some sk \<and> isActive (pollState sk)
                 \<and> retryCount (pollState sk) = retryCount (pollState s) + failuresHandled opts k s
                 \<and> retryCount (pollState sk) < maxRetries (pollingConfig opts)
                 \<and> callbacks sk = callbacks s" if k: "k \<le> Suc n" for k
    proof (cases k)
      case 0
      then show ?thesis
        using act below by simp
    next
      case (Suc k')
      with k have "k' \<le> n"
        by simp
      with an obtain sk where "run opts k' s1 = Some sk" "isActive (pollState sk)"
        "retryCount (pollState sk) = retryCount (pollState s1) + failuresHandled opts k' s1"
        "retryCount (pollState sk) < maxRetries (pollingConfig opts)"
        "callbacks sk = callbacks s1"
        by blast
      then show ?thesis
        using Suc st e r1 cb1 by simp
    qed
    then have "\<forall>k \<le> Suc n. \<exists>sk. run opts k s = Some sk \<and> isActive (pollState sk)
                 \<and> retryCount (pollState sk) = retryCount (pollState s) + failuresHandled opts k s
                 \<and> retryCount (pollState sk) < maxRetries (pollingConfig opts)
                 \<and> callbacks sk = callbacks s"
      by blast
    with rS en ln cn cb1 show ?thesis
      by (metis (no_types, lifting))
  qed
qed
qed

lemma pause_inactive:
  "\<not> isActive (pollState (pause s))" "fetchCalls (pause s) = fetchCalls s"
  by (cases "timerId (pollState s)"; simp add: pause_def clearTimeout_def Let_def)+

lemma wake_inactive:
  assumes "\<not> isActive (pollState s)"
  shows "\<not> isActive (pollState (wake opts t s)) \<and> fetchCalls (wake opts t s) = fetchCalls s"
proof (cases t)
  case PollTimer
  with assms show ?thesis
    by (simp add: executePollingCycle_def)
next
  case RetryDelay
  with assms show ?thesis
    by (simp add: finallyBlock_def)
next
  case (FetchSettled r)
  show ?thesis
  proof (cases r)
    case (Resolved d)
    with FetchSettled assms show ?thesis
      by (simp add: fetchResolved_def finallyBlock_def Let_def)
  next
    case (Rejected e)
    with FetchSettled assms show ?thesis
      by (simp add: catchBlock_def handleError_def finallyBlock_def schedule_def Let_def
          pause_inactive)
  qed
next
  case ActivityTimeout
  with assms show ?thesis
    by (simp add: onActivityTimeout_def adjustPollingInterval_def Let_def)
qed

lemma inactive_run:
  "\<not> isActive (pollState s) \<Longrightarrow> run opts j s = Some sj \<Longrightarrow>
   \<not> isActive (pollState sj) \<and> fetchCalls sj = fetchCalls s"
proof (induction j arbitrary: s)
  case 0
  then show ?case by simp
next
  case (Suc j)
  from Suc.prems(2) obtain s1 where st: "step opts s = Some s1" and r: "run opts j s1 = Some sj"
    by (auto split: option.splits)
  from st obtain i due t where
    s1: "s1 = wake opts t (s\<lparr> now := max (now s) due,
                               pending := filter (\<lambda>p. fst p \<noteq> i) (pending s) \<rparr>)"
    by (auto simp: step_def split: option.splits)
  have "\<not> isActive (pollState s1) \<and> fetchCalls s1 = fetchCalls s"
    unfolding s1 using wake_inactive [of "s\<lparr> now := max (now s) due,
                               pending := filter (\<lambda>p. fst p \<noteq> i) (pending s) \<rparr>" opts t] Suc.prems(1)
    by simp
  with Suc.IH [OF _ r] show ?case
    by simp
qed

lemma success_resets:
  assumes e: "earliest (pending s) = Some (i, due, FetchSettled (Resolved d))"
  shows "\<exists>s1. step opts s = Some s1 \<and> retryCount (pollState s1) = 0
           \<and> lastError (pollState s1) = None
           \<and> isActive (pollState s1) = isActive (pollState s)
           \<and> callbacks s1 = callbacks s @ (if onSuccess opts then [OnSuccess d] else [])
           \<and> (isActive (pollState s) \<longrightarrow>
                pending s1 = filter (\<lambda>p. fst p \<noteq> i) (pending s) @
                  [(nextId s, max (now s) due + currentInterval (pollState s), PollTimer)])
           \<and> (isActive (pollState s) \<and> cyclePending s \<longrightarrow> cyclePending s1)"
proof -
  let ?ps = "filter (\<lambda>p. fst p \<noteq> i) (pending s)"
  define s1 where
    "s1 = wake opts (FetchSettled (Resolved d)) (s\<lparr> now := max (now s) due, pending := ?ps \<rparr>)"
  have st: "step opts s = Some s1"
    unfolding s1_def by (rule step_earliest [OF e])
  have "retryCount (pollState s1) = 0" "lastError (pollState s1) = None"
    "isActive (pollState s1) = isActive (pollState s)"
    "callbacks s1 = callbacks s @ (if onSuccess opts then [OnSuccess d] else [])"
    "isActive (pollState s) \<longrightarrow>
       pending s1 = ?ps @ [(nextId s, max (now s) due + currentInterval (pollState s), PollTimer)]"
    by (simp_all add: s1_def fetchResolved_def finallyBlock_def schedule_def Let_def)
  moreover have "cyclePending s1" if a: "isActive (pollState s)" and c: "cyclePending s"
  proof -
    from c have d: "distinct (map fst (pending s))"
      and l: "list_all (\<lambda>p. fst p < nextId s) (pending s)"
      by (simp_all add: cyclePending_def)
    have p1: "pending s1 = ?ps @ [(nextId s, max (now s) due + currentInterval (pollState s), PollTimer)]"
      and n1: "nextId s1 = Suc (nextId s)"
      using a by (simp_all add: s1_def fetchResolved_def finallyBlock_def schedule_def Let_def)
    show ?thesis
      unfolding cyclePending_def p1 n1
      using ids_extend [OF d l, of "\<lambda>p. fst p \<noteq> i"] by simp
  qed
  ultimately show ?thesis
    using st by blast
qed

lemma wake_retryCount:
  assumes f: "fetchFunction opts = Some f"
  shows "retryCount (pollState (wake opts t s)) =
           (if isFailure t then retryCount (pollState s) + 1
            else if isSuccess t then 0 else retryCount (pollState s))"
proof (cases t)
  case PollTimer
  with f show ?thesis
    by (simp add: executePollingCycle_def schedule_def Let_def)
next
  case RetryDelay
  then show ?thesis
    by (simp add: finallyBlock_def schedule_def)
next
  case (FetchSettled r)
  show ?thesis
  proof (cases r)
    case (Resolved d)
    with FetchSettled show ?thesis
      by (simp add: fetchResolved_def finallyBlock_def schedule_def Let_def)
  next
    case (Rejected e)
    with FetchSettled show ?thesis
      by (cases "timerId (pollState s)")
         (simp_all add: catchBlock_def handleError_def finallyBlock_def schedule_def pause_def
            clearTimeout_def Let_def)
  qed
next
  case ActivityTimeout
  let ?s = "s\<lparr> pollState := (pollState s)\<lparr> isUserActive := False \<rparr> \<rparr>"
  have "retryCount (pollState (adjustPollingInterval opts ?s)) = retryCount (pollState s)"
  proof (cases "isActive (pollState s)")
    case True
    then have a: "isActive (pollState ?s)"
      by simp
    from adjust_active [OF a, of opts] show ?thesis
    proof
      assume "adjustPollingInterval opts ?s = ?s"
      then show ?thesis by simp
    next
      assume "\<exists>v. adjustPollingInterval opts ?s =
                  restart opts (?s\<lparr> pollState := (pollState ?s)\<lparr> currentInterval := v \<rparr> \<rparr>)"
      then obtain v where
        "adjustPollingInterval opts ?s =
           restart opts (?s\<lparr> pollState := (pollState ?s)\<lparr> currentInterval := v \<rparr> \<rparr>)"
        by blast
      moreover have "isActive (pollState (?s\<lparr> pollState := (pollState ?s)\<lparr> currentInterval := v \<rparr> \<rparr>))"
        using True by simp
      ultimately show ?thesis
        using restart_active(5) [OF f, of "?s\<lparr> pollState := (pollState ?s)\<lparr> currentInterval := v \<rparr> \<rparr>"]
        by simp
    qed
  next
    case False
    then show ?thesis
      by (simp add: adjustPollingInterval_def Let_def)
  qed
  with ActivityTimeout show ?thesis
    by (simp add: onActivityTimeout_def)
qed

lemma run_consecutiveFailures:
  assumes f: "fetchFunction opts = Some f"
  shows "run opts n s = Some sn \<Longrightarrow>
         retryCount (pollState sn) = consecutiveFailures opts n s (retryCount (pollState s))"
proof (induction n arbitrary: s)
  case 0
  then show ?case by simp
next
  case (Suc n)
  from Suc.prems obtain s1 where st: "step opts s = Some s1" and r: "run opts n s1 = Some sn"
    by (auto split: option.splits)
  from st obtain i due t where e: "earliest (pending s) = Some (i, due, t)"
    by (auto simp: step_def split: option.splits)
  from step_earliest [OF e, of opts] st have
    "s1 = wake opts t (s\<lparr> now := max (now s) due,
                           pending := filter (\<lambda>p. fst p \<noteq> i) (pending s) \<rparr>)"
    by simp
  then have "retryCount (pollState s1) =
               (if isFailure t then retryCount (pollState s) + 1
                else if isSuccess t then 0 else retryCount (pollState s))"
    using wake_retryCount [OF f] by simp
  with Suc.IH [OF r] show ?case
    using e st by simp
qed

lemma adjust_inactive:
  assumes "\<not> isActive (pollState s)"
  shows "\<exists>v. adjustPollingInterval opts s = s\<lparr> pollState := (pollState s)\<lparr> currentInterval := v \<rparr> \<rparr>"
proof (cases "adjustPollingInterval opts s = s")
  case True
  then have "adjustPollingInterval opts s =
               s\<lparr> pollState := (pollState s)\<lparr> currentInterval := currentInterval (pollState s) \<rparr> \<rparr>"
    by simp
  then show ?thesis ..
next
  case False
  then show ?thesis
    using assms unfolding adjustPollingInterval_def Let_def by (auto split: if_splits)
qed

lemma constructed_service:
  "\<exists>v. newPollingService opts online hidden t0 =
     \<lparr> pollState =
         \<lparr> isActive = False, currentInterval = v,
           retryCount = 0, isOnline = online, isVisible = \<not> hidden, isUserActive = True,
           timerId = None, lastFetchTime = None, lastSuccessTime = None, lastError = None \<rparr>,
       now = t0, pending = [(1, t0 + 60000, ActivityTimeout)], nextId = 2, fetchCalls = 0,
       callbacks = [], activityTimeout = Some 1 \<rparr>"
proof -
  let ?s0 = "\<lparr> pollState =
              \<lparr> isActive = False, currentInterval = normalInterval (pollingConfig opts),
                retryCount = 0, isOnline = online, isVisible = \<not> hidden, isUserActive = True,
                timerId = None, lastFetchTime = None, lastSuccessTime = None,
                lastError = None \<rparr>,
            now = t0, pending = [], nextId = 1, fetchCalls = 0, callbacks = [],
            activityTimeout = None \<rparr>"
  let ?s1 = "?s0\<lparr> pollState := (pollState ?s0)\<lparr> isUserActive := True \<rparr> \<rparr>"
  have "\<not> isActive (pollState ?s1)"
    by simp
  from adjust_inactive [OF this, of opts] obtain v where
    v: "adjustPollingInterval opts ?s1 = ?s1\<lparr> pollState := (pollState ?s1)\<lparr> currentInterval := v \<rparr> \<rparr>"
    by blast
  have h: "handleUserActive opts ?s0 =
     \<lparr> pollState =
         \<lparr> isActive = False, currentInterval = v,
           retryCount = 0, isOnline = online, isVisible = \<not> hidden, isUserActive = True,
           timerId = None, lastFetchTime = None, lastSuccessTime = None, lastError = None \<rparr>,
       now = t0, pending = [(1, t0 + 60000, ActivityTimeout)], nextId = 2, fetchCalls = 0,
       callbacks = [], activityTimeout = Some 1 \<rparr>"
    unfolding handleUserActive_def Let_def v by (simp add: schedule_def)
  have "\<not> isActive (pollState (handleUserActive opts ?s0))"
    unfolding h by simp
  from adjust_inactive [OF this, of opts] obtain w where
    "adjustPollingInterval opts (handleUserActive opts ?s0) =
       (handleUserActive opts ?s0)\<lparr> pollState := (pollState (handleUserActive opts ?s0))
          \<lparr> currentInterval := w \<rparr> \<rparr>"
    by blast
  then have "newPollingService opts online hidden t0 =
     \<lparr> pollState =
         \<lparr> isActive = False, currentInterval = w,
           retryCount = 0, isOnline = online, isVisible = \<not> hidden, isUserActive = True,
           timerId = None, lastFetchTime = None, lastSuccessTime = None, lastError = None \<rparr>,
       now = t0, pending = [(1, t0 + 60000, ActivityTimeout)], nextId = 2, fetchCalls = 0,
       callbacks = [], activityTimeout = Some 1 \<rparr>"
    unfolding newPollingService_def h by simp
  then show ?thesis ..
qed

lemma started_service:
  assumes f: "fetchFunction opts = Some f"
  shows "isActive (pollState (start opts (newPollingService opts online hidden t0)))"
    and "retryCount (pollState (start opts (newPollingService opts online hidden t0))) = 0"
    and "pending (start opts (newPollingService opts online hidden t0)) =
           [(1, t0 + 60000, ActivityTimeout), (2, t0 + fst (f 0), FetchSettled (snd (f 0)))]"
    and "cyclePending (start opts (newPollingService opts online hidden t0))"
    and "(\<forall>n. \<exists>e. snd (f n) = Rejected e) \<Longrightarrow>
         fetchesFail f (start opts (newPollingService opts online hidden t0))"
proof -
  from constructed_service [of opts online hidden t0] obtain v where
    c: "newPollingService opts online hidden t0 =
     \<lparr> pollState =
         \<lparr> isActive = False, currentInterval = v,
           retryCount = 0, isOnline = online, isVisible = \<not> hidden, isUserActive = True,
           timerId = None, lastFetchTime = None, lastSuccessTime = None, lastError = None \<rparr>,
       now = t0, pending = [(1, t0 + 60000, ActivityTimeout)], nextId = 2, fetchCalls = 0,
       callbacks = [], activityTimeout = Some 1 \<rparr>"
    by blast
  let ?s = "start opts (newPollingService opts online hidden t0)"
  show a: "isActive (pollState ?s)" and r: "retryCount (pollState ?s) = 0"
    and p: "pending ?s = [(1, t0 + 60000, ActivityTimeout), (2, t0 + fst (f 0), FetchSettled (snd (f 0)))]"
    unfolding c using f by (simp_all add: start_def executePollingCycle_def schedule_def Let_def)
  have n: "nextId ?s = 3" and fc: "fetchCalls ?s = 1"
    unfolding c using f by (simp_all add: start_def executePollingCycle_def schedule_def Let_def)
  show "cyclePending ?s"
    by (simp add: cyclePending_def p n)
  show "fetchesFail f ?s" if "\<forall>n. \<exists>e. snd (f n) = Rejected e"
  proof -
    from that obtain e where "snd (f 0) = Rejected e"
      by blast
    with that show ?thesis
      by (simp add: fetchesFail_def p fc)
  qed
qed

lemma failuresHandled_last:
  "run opts n s = Some sp \<Longrightarrow> earliest (pending sp) = Some (i, due, t) \<Longrightarrow>
   failuresHandled opts (Suc n) s = failuresHandled opts n s + (if isFailure t then 1 else 0)"
proof (induction n arbitrary: s)
  case 0
  then show ?case
    by (simp add: step_def)
next
  case (Suc n)
  from Suc.prems(1) obtain s1 where st: "step opts s = Some s1" and r: "run opts n s1 = Some sp"
    by (auto split: option.splits)
  from st obtain i0 due0 t0 where e0: "earliest (pending s) = Some (i0, due0, t0)"
    by (auto simp: step_def split: option.splits)
  from Suc.IH [OF r Suc.prems(2)]
  have "failuresHandled opts (Suc n) s1 = failuresHandled opts n s1 + (if isFailure t then 1 else 0)" .
  then show ?case
    using st e0 by (simp del: failuresHandled.simps(2) add: failuresHandled.simps(2) [of opts "Suc n" s]
        failuresHandled.simps(2) [of opts n s])
qed

subsection \<open>Retries\<close>

text \<open>
  Claim C3. Take an active service with fewer than \<open>maxRetries\<close> failures counted, a
  polling cycle in progress and fetches that all fail; whatever else is pending (the
  inactivity timer of a service just constructed, which may restart the cycle) is
  allowed. Then the event loop reaches a failed fetch whose handling stops the service.
  Up to that step the service is active, its \<open>retryCount\<close> is the count at the start
  plus the number of failures handled so far and is below \<open>maxRetries\<close>, and no
  callback has been called. The failure that stops it is the one that brings the count to
  exactly \<open>maxRetries\<close>; its handling leaves the service inactive with the stored timer
  cancelled, schedules nothing, and calls the error callback once, with reason
  \<^verbatim>\<open>max_retries_exceeded\<close> (when an error callback is configured). From then on the
  event loop never makes the service active or calls the fetch function again.

  A fetch that resolves is handled by a step that puts \<open>retryCount\<close> back to 0 and
  leaves an active service active with its cycle in progress, so the count starts again;
  and along every run of the event loop \<open>retryCount\<close> is the count of consecutive
  failures. A service constructed and started is active with a count of 0 and a cycle in
  progress (its first fetch, beside the inactivity timer), so the first part applies to
  it whenever its fetches fail.
\<close>

theorem retry_exhaustion:
  assumes f: "fetchFunction opts = Some f"
    and act: "isActive (pollState s)"
    and below: "retryCount (pollState s) < maxRetries (pollingConfig opts)"
    and cyc: "cyclePending s"
    and fails: "fetchesFail f s"
  shows "(\<exists>n sp sn i due e.
            run opts n s = Some sp
            \<and> earliest (pending sp) = Some (i, due, FetchSettled (Rejected e))
            \<and> step opts sp = Some sn
            \<and> (\<forall>k \<le> n. \<exists>sk. run opts k s = Some sk \<and> isActive (pollState sk)
                  \<and> retryCount (pollState sk) = retryCount (pollState s) + failuresHandled opts k s
                  \<and> retryCount (pollState sk) < maxRetries (pollingConfig opts)
                  \<and> callbacks sk = callbacks s)
            \<and> retryCount (pollState s) + failuresHandled opts (Suc n) s = maxRetries (pollingConfig opts)
            \<and> \<not> isActive (pollState sn)
            \<and> retryCount (pollState sn) = maxRetries (pollingConfig opts)
            \<and> lastError (pollState sn) = Some e
            \<and> timerId (pollState sn) = None
            \<and> nextId sn = nextId sp
            \<and> set (pending sn) \<subseteq> set (pending sp)
            \<and> callbacks sn = callbacks s @
                  (if onError opts then [OnError e ''max_retries_exceeded''] else [])
            \<and> (\<forall>j sj. run opts j sn = Some sj \<longrightarrow>
                  \<not> isActive (pollState sj) \<and> fetchCalls sj = fetchCalls sn))
         \<and> (earliest (pending q) = Some (h, u, FetchSettled (Resolved d)) \<longrightarrow>
              (\<exists>q1. step opts q = Some q1 \<and> retryCount (pollState q1) = 0
                 \<and> lastError (pollState q1) = None
                 \<and> isActive (pollState q1) = isActive (pollState q)
                 \<and> (isActive (pollState q) \<and> cyclePending q \<longrightarrow> cyclePending q1)))
         \<and> (run opts m q = Some qm \<longrightarrow>
              retryCount (pollState qm) = consecutiveFailures opts m q (retryCount (pollState q)))
         \<and> (let s0 = start opts (newPollingService opts online hidden t0)
            in isActive (pollState s0) \<and> retryCount (pollState s0) = 0 \<and> cyclePending s0
               \<and> ((\<forall>n. \<exists>e. snd (f n) = Rejected e) \<longrightarrow> fetchesFail f s0))"
proof (intro conjI)
  have inv: "retrying opts f s"
    using act below cyc fails by (simp add: retrying_def)
  from retrying_exhausts [OF f inv] obtain n sp i due e where
    rn: "run opts n s = Some sp"
    and en: "earliest (pending sp) = Some (i, due, FetchSettled (Rejected e))"
    and ln: "retryCount (pollState sp) + 1 = maxRetries (pollingConfig opts)"
    and cn: "callbacks sp = callbacks s"
    and an: "\<forall>k \<le> n. \<exists>sk. run opts k s = Some sk \<and> isActive (pollState sk)
                 \<and> retryCount (pollState sk) = retryCount (pollState s) + failuresHandled opts k s
                 \<and> retryCount (pollState sk) < maxRetries (pollingConfig opts)
                 \<and> callbacks sk = callbacks s"
    by blast
  from ln have "maxRetries (pollingConfig opts) \<le> retryCount (pollState sp) + 1"
    by simp
  from failure_stops [OF en this] obtain sn where
    st: "step opts sp = Some sn" and a: "\<not> isActive (pollState sn)"
    and r: "retryCount (pollState sn) = retryCount (pollState sp) + 1"
    and le: "lastError (pollState sn) = Some e"
    and ti: "timerId (pollState sn) = None" and ni: "nextId sn = nextId sp"
    and pe: "pending sn = filter (\<lambda>p. fst p \<noteq> i \<and> Some (fst p) \<noteq> timerId (pollState sp)) (pending sp)"
    and cb: "callbacks sn = callbacks sp @
                (if onError opts then [OnError e ''max_retries_exceeded''] else [])"
    by blast
  from an rn have cnt: "retryCount (pollState sp) = retryCount (pollState s) + failuresHandled opts n s"
    by auto
  have tot: "retryCount (pollState s) + failuresHandled opts (Suc n) s = maxRetries (pollingConfig opts)"
    using failuresHandled_last [OF rn en] cnt ln by simp
  have sub: "set (pending sn) \<subseteq> set (pending sp)"
    unfolding pe by auto
  have after: "\<forall>j sj. run opts j sn = Some sj \<longrightarrow>
                  \<not> isActive (pollState sj) \<and> fetchCalls sj = fetchCalls sn"
    using inactive_run [OF a] by blast
  have rm: "retryCount (pollState sn) = maxRetries (pollingConfig opts)"
    using r ln by simp
  have cbs: "callbacks sn = callbacks s @
                  (if onError opts then [OnError e ''max_retries_exceeded''] else [])"
    using cb cn by simp
  show "\<exists>n sp sn i due e.
            run opts n s = Some sp
            \<and> earliest (pending sp) = Some (i, due, FetchSettled (Rejected e))
            \<and> step opts sp = Some sn
            \<and> (\<forall>k \<le> n. \<exists>sk. run opts k s = Some sk \<and> isActive (pollState sk)
                  \<and> retryCount (pollState sk) = retryCount (pollState s) + failuresHandled opts k s
                  \<and> retryCount (pollState sk) < maxRetries (pollingConfig opts)
                  \<and> callbacks sk = callbacks s)
            \<and> retryCount (pollState s) + failuresHandled opts (Suc n) s = maxRetries (pollingConfig opts)
            \<and> \<not> isActive (pollState sn)
            \<and> retryCount (pollState sn) = maxRetries (pollingConfig opts)
            \<and> lastError (pollState sn) = Some e
            \<and> timerId (pollState sn) = None
            \<and> nextId sn = nextId sp
            \<and> set (pending sn) \<subseteq> set (pending sp)
            \<and> callbacks sn = callbacks s @
                  (if onError opts then [OnError e ''max_retries_exceeded''] else [])
            \<and> (\<forall>j sj. run opts j sn = Some sj \<longrightarrow>
                  \<not> isActive (pollState sj) \<and> fetchCalls sj = fetchCalls sn)"
    using rn en st an tot a rm le ti ni sub cbs after by blast
next
  show "earliest (pending q) = Some (h, u, FetchSettled (Resolved d)) \<longrightarrow>
              (\<exists>q1. step opts q = Some q1 \<and> retryCount (pollState q1) = 0
                 \<and> lastError (pollState q1) = None
                 \<and> isActive (pollState q1) = isActive (pollState q)
                 \<and> (isActive (pollState q) \<and> cyclePending q \<longrightarrow> cyclePending q1))"
  proof
    assume "earliest (pending q) = Some (h, u, FetchSettled (Resolved d))"
    from success_resets [OF this, of opts] show "\<exists>q1. step opts q = Some q1 \<and> retryCount (pollState q1) = 0
                 \<and> lastError (pollState q1) = None
                 \<and> isActive (pollState q1) = isActive (pollState q)
                 \<and> (isActive (pollState q) \<and> cyclePending q \<longrightarrow> cyclePending q1)"
      by blast
  qed
next
  show "run opts m q = Some qm \<longrightarrow>
          retryCount (pollState qm) = consecutiveFailures opts m q (retryCount (pollState q))"
    using run_consecutiveFailures [OF f] by blast
next
  show "let s0 = start opts (newPollingService opts online hidden t0)
        in isActive (pollState s0) \<and> retryCount (pollState s0) = 0 \<and> cyclePending s0
           \<and> ((\<forall>n. \<exists>e. snd (f n) = Rejected e) \<longrightarrow> fetchesFail f s0)"
    unfolding Let_def using started_service [OF f, of online hidden t0] by blast
qed

text \<open>
  The theorem on two services with the default \<open>maxRetries\<close> of 3. The service started
  right after construction has the inactivity timer and the first fetch pending; it is
  active with no callback called after two failures and stopped by the third, with one
  error callback. The service whose third fetch succeeds has counted two failures when
  that fetch resolves; the step that handles it puts the count back to 0, and three more
  failures, the last one of a cycle restarted by the inactivity timer at 60000, stop it
  at 60100.
\<close>

theorem retry_exhaustion_witness:
  "fetchFunction failingOptions = Some alwaysFailing
   \<and> maxRetries (pollingConfig failingOptions) = 3
   \<and> isActive (pollState normalStart)
   \<and> retryCount (pollState normalStart) = 0
   \<and> pending normalStart =
       [(1, 60000, ActivityTimeout), (2, 100, FetchSettled (Rejected (Error ''network'')))]
   \<and> cyclePending normalStart
   \<and> fetchesFail alwaysFailing normalStart
   \<and> (\<exists>n sp sn e. run failingOptions n normalStart = Some sp
          \<and> step failingOptions sp = Some sn
          \<and> isActive (pollState sp) \<and> callbacks sp = []
          \<and> failuresHandled failingOptions (Suc n) normalStart = 3
          \<and> \<not> isActive (pollState sn) \<and> retryCount (pollState sn) = 3
          \<and> timerId (pollState sn) = None
          \<and> callbacks sn = [OnError e ''max_retries_exceeded''])
   \<and> map (\<lambda>k. map_option (\<lambda>s. (isActive (pollState s), retryCount (pollState s), fetchCalls s,
                                   callbacks s))
                (run failingOptions k normalStart)) [6, 7, 8, 9] =
       [Some (True, 2, 3, []),
        Some (False, 3, 3, [OnError (Error ''network'') ''max_retries_exceeded'']),
        Some (False, 3, 3, [OnError (Error ''network'') ''max_retries_exceeded'']),
        None]
   \<and> fetchFunction recoveringOptions = Some recovering
   \<and> retryCount (pollState recoveringAwaiting) = 2
   \<and> earliest (pending recoveringAwaiting) = Some (8, 30300, FetchSettled (Resolved (JStr ''ok'')))
   \<and> step recoveringOptions recoveringAwaiting = Some recovered
   \<and> retryCount (pollState recovered) = 0
   \<and> isActive (pollState recovered)
   \<and> pending recovered = [(1, 60000, ActivityTimeout), (9, 40300, PollTimer)]
   \<and> cyclePending recovered
   \<and> fetchesFail recovering recovered
   \<and> (\<exists>n sp sn e. run recoveringOptions n recovered = Some sp
          \<and> step recoveringOptions sp = Some sn
          \<and> isActive (pollState sp) \<and> callbacks sp = [OnSuccess (JStr ''ok'')]
          \<and> failuresHandled recoveringOptions (Suc n) recovered = 3
          \<and> \<not> isActive (pollState sn) \<and> retryCount (pollState sn) = 3
          \<and> callbacks sn = [OnSuccess (JStr ''ok''), OnError e ''max_retries_exceeded''])
   \<and> map (\<lambda>k. map_option (\<lambda>s. (now s, isActive (pollState s), retryCount (pollState s),
                                   fetchCalls s, length (callbacks s)))
                (run recoveringOptions k recovered)) [5, 6, 7, 8] =
       [Some (55500, True, 2, 5, 1), Some (60000, True, 2, 6, 1), Some (60100, False, 3, 6, 2),
        Some (60500, False, 3, 6, 2)]"
proof -
  have f: "fetchFunction failingOptions = Some alwaysFailing"
    and e: "onError failingOptions"
    by (simp_all add: failingOptions_def newPollingOptions_def)
  have m: "maxRetries (pollingConfig failingOptions) = 3"
    by (simp add: failingOptions_def newPollingOptions_def orDefault_def)
  have a: "isActive (pollState normalStart)"
    and r: "retryCount (pollState normalStart) = 0"
    and p: "pending normalStart =
       [(1, 60000, ActivityTimeout), (2, 100, FetchSettled (Rejected (Error ''network'')))]"
    and c: "callbacks normalStart = []"
    and cy: "cyclePending normalStart"
    by code_simp+
  have ff: "fetchesFail alwaysFailing normalStart"
    by (simp add: fetchesFail_def alwaysFailing_def p)
  have b: "retryCount (pollState normalStart) < maxRetries (pollingConfig failingOptions)"
    using r m by simp
  from retry_exhaustion [OF f a b cy ff, where q = normalStart and m = 0 and qm = normalStart]
  obtain n sp sn e' where
    rn: "run failingOptions n normalStart = Some sp" and st: "step failingOptions sp = Some sn"
    and al: "\<forall>k \<le> n. \<exists>sk. run failingOptions k normalStart = Some sk \<and> isActive (pollState sk)
        \<and> retryCount (pollState sk) =
            retryCount (pollState normalStart) + failuresHandled failingOptions k normalStart
        \<and> retryCount (pollState sk) < maxRetries (pollingConfig failingOptions)
        \<and> callbacks sk = callbacks normalStart"
    and tot: "retryCount (pollState normalStart) + failuresHandled failingOptions (Suc n) normalStart =
       maxRetries (pollingConfig failingOptions)"
    and sn: "\<not> isActive (pollState sn)"
      "retryCount (pollState sn) = maxRetries (pollingConfig failingOptions)"
      "timerId (pollState sn) = None"
    and cb: "callbacks sn = callbacks normalStart @
       (if onError failingOptions then [OnError e' ''max_retries_exceeded''] else [])"
    by blast
  from al [rule_format, of n] rn have sp: "isActive (pollState sp)" "callbacks sp = []"
    using c by auto
  have "run failingOptions n normalStart = Some sp
          \<and> step failingOptions sp = Some sn
          \<and> isActive (pollState sp) \<and> callbacks sp = []
          \<and> failuresHandled failingOptions (Suc n) normalStart = 3
          \<and> \<not> isActive (pollState sn) \<and> retryCount (pollState sn) = 3
          \<and> timerId (pollState sn) = None
          \<and> callbacks sn = [OnError e' ''max_retries_exceeded'']"
    using rn st sp tot sn cb r m c e by simp
  then have x: "\<exists>n sp sn e. run failingOptions n normalStart = Some sp
          \<and> step failingOptions sp = Some sn
          \<and> isActive (pollState sp) \<and> callbacks sp = []
          \<and> failuresHandled failingOptions (Suc n) normalStart = 3
          \<and> \<not> isActive (pollState sn) \<and> retryCount (pollState sn) = 3
          \<and> timerId (pollState sn) = None
          \<and> callbacks sn = [OnError e ''max_retries_exceeded'']"
    by blast
  have z: "map (\<lambda>k. map_option (\<lambda>s. (isActive (pollState s), retryCount (pollState s), fetchCalls s,
                                   callbacks s))
                (run failingOptions k normalStart)) [6, 7, 8, 9] =
       [Some (True, 2, 3, []),
        Some (False, 3, 3, [OnError (Error ''network'') ''max_retries_exceeded'']),
        Some (False, 3, 3, [OnError (Error ''network'') ''max_retries_exceeded'']),
        None]"
    by code_simp
  have f2: "fetchFunction recoveringOptions = Some recovering"
    and e2: "onError recoveringOptions"
    by (simp_all add: recoveringOptions_def newPollingOptions_def)
  have m2: "maxRetries (pollingConfig recoveringOptions) = 3"
    by (simp add: recoveringOptions_def newPollingOptions_def orDefault_def)
  have q: "earliest (pending recoveringAwaiting) = Some (8, 30300, FetchSettled (Resolved (JStr ''ok'')))"
    and qr: "retryCount (pollState recoveringAwaiting) = 2"
    and qs: "step recoveringOptions recoveringAwaiting = Some recovered"
    by code_simp+
  have a2: "isActive (pollState recovered)"
    and r2: "retryCount (pollState recovered) = 0"
    and p2: "pending recovered = [(1, 60000, ActivityTimeout), (9, 40300, PollTimer)]"
    and c2: "callbacks recovered = [OnSuccess (JStr ''ok'')]"
    and n2: "fetchCalls recovered = 3"
    and cy2: "cyclePending recovered"
    by code_simp+
  have ff2: "fetchesFail recovering recovered"
    by (simp add: fetchesFail_def recovering_def p2 n2)
  have b2: "retryCount (pollState recovered) < maxRetries (pollingConfig recoveringOptions)"
    using r2 m2 by simp
  note t2 = retry_exhaustion [OF f2 a2 b2 cy2 ff2, where q = recoveringAwaiting and h = 8
      and u = 30300 and d = "JStr ''ok''" and m = 0 and qm = recoveringAwaiting]
  from t2 q have "\<exists>q1. step recoveringOptions recoveringAwaiting = Some q1
      \<and> retryCount (pollState q1) = 0"
    by blast
  with qs have y: "retryCount (pollState recovered) = 0"
    by simp
  from t2 obtain n' sp' sn' e'' where
    rn': "run recoveringOptions n' recovered = Some sp'" and st': "step recoveringOptions sp' = Some sn'"
    and al': "\<forall>k \<le> n'. \<exists>sk. run recoveringOptions k recovered = Some sk \<and> isActive (pollState sk)
        \<and> retryCount (pollState sk) =
            retryCount (pollState recovered) + failuresHandled recoveringOptions k recovered
        \<and> retryCount (pollState sk) < maxRetries (pollingConfig recoveringOptions)
        \<and> callbacks sk = callbacks recovered"
    and tot': "retryCount (pollState recovered) + failuresHandled recoveringOptions (Suc n') recovered =
       maxRetries (pollingConfig recoveringOptions)"
    and sn': "\<not> isActive (pollState sn')"
      "retryCount (pollState sn') = maxRetries (pollingConfig recoveringOptions)"
    and cb': "callbacks sn' = callbacks recovered @
       (if onError recoveringOptions then [OnError e'' ''max_retries_exceeded''] else [])"
    by blast
  from al' [rule_format, of n'] rn' have sp': "isActive (pollState sp')"
    "callbacks sp' = [OnSuccess (JStr ''ok'')]"
    using c2 by auto
  have "run recoveringOptions n' recovered = Some sp'
          \<and> step recoveringOptions sp' = Some sn'
          \<and> isActive (pollState sp') \<and> callbacks sp' = [OnSuccess (JStr ''ok'')]
          \<and> failuresHandled recoveringOptions (Suc n') recovered = 3
          \<and> \<not> isActive (pollState sn') \<and> retryCount (pollState sn') = 3
          \<and> callbacks sn' = [OnSuccess (JStr ''ok''), OnError e'' ''max_retries_exceeded'']"
    using rn' st' sp' tot' sn' cb' r2 m2 c2 e2 by simp
  then have x2: "\<exists>n sp sn e. run recoveringOptions n recovered = Some sp
          \<and> step recoveringOptions sp = Some sn
          \<and> isActive (pollState sp) \<and> callbacks sp = [OnSuccess (JStr ''ok'')]
          \<and> failuresHandled recoveringOptions (Suc n) recovered = 3
          \<and> \<not> isActive (pollState sn) \<and> retryCount (pollState sn) = 3
          \<and> callbacks sn = [OnSuccess (JStr ''ok''), OnError e ''max_retries_exceeded'']"
    by blast
  have z2: "map (\<lambda>k. map_option (\<lambda>s. (now s, isActive (pollState s), retryCount (pollState s),
                                   fetchCalls s, length (callbacks s)))
                (run recoveringOptions k recovered)) [5, 6, 7, 8] =
       [Some (55500, True, 2, 5, 1), Some (60000, True, 2, 6, 1), Some (60100, False, 3, 6, 2),
        Some (60500, False, 3, 6, 2)]"
    by code_simp
  show ?thesis
    using f m a r p cy ff x z f2 qr q qs y a2 p2 cy2 ff2 x2 z2 by simp
qed




subsection \<open>The polling interval\<close>

lemma signals_pause: "signals (pause s) = signals s"
  by (simp add: signals_def pause_def clearTimeout_def Let_def split: option.splits)

lemma signals_finallyBlock: "signals (finallyBlock s) = signals s"
  by (simp add: signals_def finallyBlock_def schedule_def)

lemma signals_catchBlock: "signals (catchBlock opts e s) = signals s"
proof (cases "retryCount (pollState s) + 1 < maxRetries (pollingConfig opts)")
  case True
  then show ?thesis
    by (simp add: catchBlock_def handleError_def schedule_def Let_def signals_def)
next
  case False
  let ?s1 = "s\<lparr> pollState := (pollState s)
                  \<lparr> lastError := Some e, retryCount := retryCount (pollState s) + 1 \<rparr> \<rparr>"
  have "signals (pause ?s1) = signals s"
    by (simp add: signals_pause) (simp add: signals_def)
  moreover have "signals ((pause ?s1)\<lparr> callbacks := cb \<rparr>) = signals (pause ?s1)" for cb
    by (simp add: signals_def)
  ultimately show ?thesis
    using False by (simp add: catchBlock_def handleError_def Let_def signals_finallyBlock)
qed

lemma signals_executePollingCycle: "signals (executePollingCycle opts s) = signals s"
proof (cases "fetchFunction opts")
  case None
  have "signals (s\<lparr> pollState := (pollState s)\<lparr> lastFetchTime := t \<rparr> \<rparr>) = signals s" for t
    by (simp add: signals_def)
  with None show ?thesis
    by (simp add: executePollingCycle_def Let_def signals_catchBlock)
next
  case (Some f)
  then show ?thesis
    by (simp add: executePollingCycle_def Let_def schedule_def signals_def)
qed

lemma signals_resume: "signals (resume opts s) = signals s"
proof -
  have "signals (s\<lparr> pollState := (pollState s)\<lparr> isActive := True \<rparr> \<rparr>) = signals s"
    by (simp add: signals_def)
  then show ?thesis
    by (simp add: resume_def signals_executePollingCycle)
qed

lemma signals_restart: "signals (restart opts s) = signals s"
  by (simp add: restart_def signals_resume signals_pause)

lemma signals_adjust:
  "signals (adjustPollingInterval opts s) =
     (isOnline (pollState s), isVisible (pollState s), isUserActive (pollState s),
      intervalByPrecedence (pollingConfig opts) (isOnline (pollState s)) (isVisible (pollState s))
        (isUserActive (pollState s)))"
proof -
  let ?n = "intervalByPrecedence (pollingConfig opts) (isOnline (pollState s)) (isVisible (pollState s))
        (isUserActive (pollState s))"
  let ?s1 = "s\<lparr> pollState := (pollState s)\<lparr> currentInterval := ?n \<rparr> \<rparr>"
  have a: "adjustPollingInterval opts s =
             (if ?n \<noteq> currentInterval (pollState s)
              then (if isActive (pollState ?s1) then restart opts ?s1 else ?s1) else s)"
    by (simp add: adjustPollingInterval_def intervalByPrecedence_def Let_def)
  have s1: "signals ?s1 = (isOnline (pollState s), isVisible (pollState s), isUserActive (pollState s), ?n)"
    by (simp add: signals_def)
  show ?thesis
  proof (cases "?n = currentInterval (pollState s)")
    case True
    then show ?thesis
      unfolding a by (simp add: signals_def)
  next
    case False
    then show ?thesis
      unfolding a using s1 by (simp add: signals_restart)
  qed
qed

lemma signals_schedule: "signals (schedule t ms s) = signals s"
  by (simp add: signals_def schedule_def)

lemma signals_clearTimeout: "signals (clearTimeout i s) = signals s"
  by (simp add: signals_def clearTimeout_def)

lemma signals_handleUserActive:
  "signals (handleUserActive opts s) =
     (isOnline (pollState s), isVisible (pollState s), True,
      intervalByPrecedence (pollingConfig opts) (isOnline (pollState s)) (isVisible (pollState s)) True)"
proof -
  let ?s0 = "s\<lparr> pollState := (pollState s)\<lparr> isUserActive := True \<rparr> \<rparr>"
  let ?s1 = "adjustPollingInterval opts ?s0"
  let ?s2 = "case activityTimeout ?s1 of Some i \<Rightarrow> clearTimeout i ?s1 | None \<Rightarrow> ?s1"
  have "signals ?s2 = signals ?s1"
    by (simp add: signals_clearTimeout split: option.splits)
  moreover have "signals ((schedule ActivityTimeout 60000 ?s2)\<lparr> activityTimeout := x \<rparr>) = signals ?s2" for x
    using signals_schedule [of ActivityTimeout 60000 ?s2] by (simp add: signals_def)
  ultimately show ?thesis
    by (simp add: handleUserActive_def Let_def signals_adjust)
qed

text \<open>
  Claim C2, as the code has it. Every run of \<open>adjustPollingInterval\<close> leaves the three
  signals as they are and sets the current interval by the precedence: offline gives twice
  the background interval whatever the other two signals are, else a hidden page gives the
  background interval whatever the activity is, else an active user gives the active
  interval, else the normal interval. It runs when the visibility changes, on user
  activity, when the inactivity timer fires and in the constructor, so after each of these
  the interval is the one the signals then call for.
\<close>

theorem interval_precedence:
  "signals (adjustPollingInterval opts s) =
     (isOnline (pollState s), isVisible (pollState s), isUserActive (pollState s),
      intervalByPrecedence (pollingConfig opts) (isOnline (pollState s)) (isVisible (pollState s))
        (isUserActive (pollState s)))
   \<and> signals (onVisibilityChange opts hidden s) =
     (isOnline (pollState s), \<not> hidden, isUserActive (pollState s),
      intervalByPrecedence (pollingConfig opts) (isOnline (pollState s)) (\<not> hidden)
        (isUserActive (pollState s)))
   \<and> signals (handleUserActive opts s) =
     (isOnline (pollState s), isVisible (pollState s), True,
      intervalByPrecedence (pollingConfig opts) (isOnline (pollState s)) (isVisible (pollState s)) True)
   \<and> signals (onActivityTimeout opts s) =
     (isOnline (pollState s), isVisible (pollState s), False,
      intervalByPrecedence (pollingConfig opts) (isOnline (pollState s)) (isVisible (pollState s)) False)
   \<and> signals (newPollingService opts online hidden t0) =
     (online, \<not> hidden, True, intervalByPrecedence (pollingConfig opts) online (\<not> hidden) True)"
proof (intro conjI)
  show "signals (adjustPollingInterval opts s) =
     (isOnline (pollState s), isVisible (pollState s), isUserActive (pollState s),
      intervalByPrecedence (pollingConfig opts) (isOnline (pollState s)) (isVisible (pollState s))
        (isUserActive (pollState s)))"
    by (rule signals_adjust)
  show "signals (onVisibilityChange opts hidden s) =
     (isOnline (pollState s), \<not> hidden, isUserActive (pollState s),
      intervalByPrecedence (pollingConfig opts) (isOnline (pollState s)) (\<not> hidden)
        (isUserActive (pollState s)))"
    by (simp add: onVisibilityChange_def signals_adjust)
  show "signals (handleUserActive opts s) =
     (isOnline (pollState s), isVisible (pollState s), True,
      intervalByPrecedence (pollingConfig opts) (isOnline (pollState s)) (isVisible (pollState s)) True)"
    by (rule signals_handleUserActive)
  show "signals (onActivityTimeout opts s) =
     (isOnline (pollState s), isVisible (pollState s), False,
      intervalByPrecedence (pollingConfig opts) (isOnline (pollState s)) (isVisible (pollState s)) False)"
    by (simp add: onActivityTimeout_def signals_adjust)
  have h: "signals (handleUserActive opts s0) = (online, \<not> hidden, True, x) \<Longrightarrow>
        signals (adjustPollingInterval opts (handleUserActive opts s0)) =
          (online, \<not> hidden, True, intervalByPrecedence (pollingConfig opts) online (\<not> hidden) True)" for s0 x
    unfolding signals_adjust by (simp add: signals_def)
  show "signals (newPollingService opts online hidden t0) =
     (online, \<not> hidden, True, intervalByPrecedence (pollingConfig opts) online (\<not> hidden) True)"
    unfolding newPollingService_def by (rule h) (simp add: signals_handleUserActive)
qed

text \<open>
  The theorem on the service of the scenario, freshly constructed at time 0, online and
  visible: a hidden page gives the background interval, inactivity the normal one.
\<close>

theorem interval_precedence_witness:
  "signals (adjustPollingInterval failingOptions freshService) = (True, True, True, 10000)
   \<and> signals (onVisibilityChange failingOptions True freshService) = (True, False, True, 60000)
   \<and> signals (handleUserActive failingOptions freshService) = (True, True, True, 10000)
   \<and> signals (onActivityTimeout failingOptions freshService) = (True, True, False, 30000)
   \<and> signals (newPollingService failingOptions True True 0) = (True, False, True, 60000)"
proof -
  have c: "pollingConfig failingOptions =
             \<lparr> normalInterval = 30000, activeInterval = 10000, backgroundInterval = 60000,
               retryDelay = 5000, maxRetries = 3 \<rparr>"
    by (simp add: failingOptions_def newPollingOptions_def orDefault_def)
  have s: "isOnline (pollState freshService)" "isVisible (pollState freshService)"
    "isUserActive (pollState freshService)"
    by code_simp+
  show ?thesis
    using interval_precedence [where opts = failingOptions and s = freshService and hidden = True
        and online = True and ?t0.0 = 0] s
    by (simp add: c intervalByPrecedence_def)
qed

text \<open>
  Claim C2 as stated fails for the online signal. The \<^verbatim>\<open>offline\<close> listener sets
  \<open>isOnline\<close> to false and pauses; it does not run \<open>adjustPollingInterval\<close>. On the
  fresh service the interval stays the active interval, 10000, where the precedence
  calls for twice the background interval, 120000.
\<close>

theorem interval_precedence_counterexample:
  "signals (onOffline freshService) = (False, True, True, 10000)
   \<and> intervalByPrecedence (pollingConfig failingOptions) False True True = 120000"
  by code_simp

subsection \<open>Pausing and stopping\<close>

text \<open>
  Claim C8. \<open>pause\<close> sets \<open>isActive\<close> to false, cancels the timer whose handle is
  stored in \<open>timerId\<close> and clears the handle; every other field of the state, among
  them \<open>retryCount\<close> and \<open>lastError\<close>, and everything else the service holds is
  unchanged. \<open>stop\<close> does the same and also sets \<open>retryCount\<close> to 0 and
  \<open>lastError\<close> to null.
\<close>

theorem pause_stop_frame:
  "pollState (pause s) = (pollState s)\<lparr> isActive := False, timerId := None \<rparr>
   \<and> pending (pause s) = filter (\<lambda>p. Some (fst p) \<noteq> timerId (pollState s)) (pending s)
   \<and> pause s = s\<lparr> pollState := pollState (pause s), pending := pending (pause s) \<rparr>
   \<and> pollState (stop s) =
         (pollState s)\<lparr> isActive := False, timerId := None, retryCount := 0, lastError := None \<rparr>
   \<and> pending (stop s) = filter (\<lambda>p. Some (fst p) \<noteq> timerId (pollState s)) (pending s)
   \<and> stop s = s\<lparr> pollState := pollState (stop s), pending := pending (stop s) \<rparr>"
proof (cases "timerId (pollState s)")
  case None
  then show ?thesis
    by (simp add: pause_def stop_def Let_def)
next
  case (Some i)
  have "filter (\<lambda>p. fst p \<noteq> i) (pending s) = filter (\<lambda>p. Some (fst p) \<noteq> Some i) (pending s)"
    by simp
  with Some show ?thesis
    by (simp add: pause_def stop_def clearTimeout_def Let_def)
qed

text \<open>
  The theorem on the scenario, two steps after the start: one failure is counted and the
  timer of the next cycle is armed. \<open>pause\<close> cancels it and keeps the count and the
  error, \<open>stop\<close> clears both.
\<close>

theorem pause_stop_frame_witness:
  "(case run failingOptions 2 startedService of
      None \<Rightarrow> False
    | Some s \<Rightarrow>
        timerId (pollState s) = Some 4 \<and> pending s = [(4, 95100, PollTimer)]
        \<and> retryCount (pollState s) = 1 \<and> lastError (pollState s) = Some (Error ''network'')
        \<and> pollState (pause s) = (pollState s)\<lparr> isActive := False, timerId := None \<rparr>
        \<and> pending (pause s) = []
        \<and> retryCount (pollState (pause s)) = 1
        \<and> retryCount (pollState (stop s)) = 0 \<and> lastError (pollState (stop s)) = None
        \<and> pending (stop s) = [])"
proof -
  obtain s where s: "run failingOptions 2 startedService = Some s"
    and t: "timerId (pollState s) = Some 4" "pending s = [(4, 95100, PollTimer)]"
      "retryCount (pollState s) = 1" "lastError (pollState s) = Some (Error ''network'')"
  proof -
    have "case run failingOptions 2 startedService of None \<Rightarrow> False
          | Some s \<Rightarrow> timerId (pollState s) = Some 4 \<and> pending s = [(4, 95100, PollTimer)]
              \<and> retryCount (pollState s) = 1 \<and> lastError (pollState s) = Some (Error ''network'')"
      by code_simp
    then show ?thesis
      using that by (auto split: option.splits)
  qed
  show ?thesis
    using pause_stop_frame [of s] s t by simp
qed

section \<open>Properties of RealTimeState\<close>

lemma sliceLast_length: "length (sliceLast n xs) = (if n = 0 then length xs else min n (length xs))"
  by (auto simp: sliceLast_def)

lemma dispatch_history_length:
  assumes "maxHistorySize st = 50" "length (history st) \<le> 50"
  shows "length (history (snd (dispatch opts action t st))) \<le> 50
         \<and> maxHistorySize (snd (dispatch opts action t st)) = 50"
  using assms
  by (auto simp: dispatch_def notifyListeners_def sliceLast_length Let_def
      split: option.splits sum.splits)

lemma perform_history_length:
  assumes "maxHistorySize st = 50" "length (history st) \<le> 50"
  shows "length (history (perform opts st op)) \<le> 50 \<and> maxHistorySize (perform opts st op) = 50"
proof (cases op)
  case (Dispatch action t)
  with dispatch_history_length [OF assms] show ?thesis
    by simp
next
  case (ResetState newState t)
  with assms show ?thesis
    by (simp add: resetState_def notifyListeners_def Let_def)
next
  case (TimeTravelTo index)
  with assms show ?thesis
    by (simp add: timeTravelTo_def notifyListeners_def)
qed

lemma performs_history_length:
  assumes "maxHistorySize st = 50" "length (history st) \<le> 50"
  shows "length (history (foldl (perform opts) st ops)) \<le> 50
         \<and> maxHistorySize (foldl (perform opts) st ops) = 50"
  using assms
proof (induction ops arbitrary: st)
  case Nil
  then show ?case by simp
next
  case (Cons op ops)
  from perform_history_length [OF Cons.prems, of opts op]
  have "maxHistorySize (perform opts st op) = 50" "length (history (perform opts st op)) \<le> 50"
    by simp_all
  from Cons.IH [OF this] show ?case
    by simp
qed

lemma dispatch_success_history:
  assumes "dispatch opts action t st = (Inr newState, st')"
  shows "\<exists>processedAction.
           runMiddleware (middleware st) action (rtState st) = Inr processedAction
           \<and> rtState st' = newState \<and> timestamp newState = t
           \<and> history st' =
               (let pushed = history st @
                      [\<lparr> h_timestamp = t, h_action = processedAction, h_state = newState \<rparr>]
                in if length pushed > maxHistorySize st
                   then sliceLast (maxHistorySize st) pushed else pushed)"
  using assms
  by (auto simp: dispatch_def notifyListeners_def Let_def split: option.splits sum.splits if_splits)

text \<open>
  Claim C9. From the constructed store, after any sequence of dispatches, resets and time
  travels the history holds at most 50 entries. A dispatch that succeeds on a store of
  such a sequence appends one entry, made of the time, the processed action and the
  state it returns: when the history had fewer than 50 entries it is the old history
  with the entry at its end, and when it had 50 the oldest entry is dropped, so the most
  recent 50 are kept.
\<close>

theorem history_bounded:
  fixes opts :: "'a rtOptions"
  assumes st: "st = foldl (perform opts) (newRealTimeState opts mws t0) ops"
  shows "length (history st) \<le> 50
         \<and> (\<forall>action t newState st'.
               dispatch opts action t st = (Inr newState, st') \<longrightarrow>
               (\<exists>processedAction.
                  runMiddleware (middleware st) action (rtState st) = Inr processedAction
                  \<and> rtState st' = newState
                  \<and> last (history st') =
                       \<lparr> h_timestamp = t, h_action = processedAction, h_state = newState \<rparr>
                  \<and> history st' =
                      (if length (history st) < 50
                       then history st @
                              [\<lparr> h_timestamp = t, h_action = processedAction, h_state = newState \<rparr>]
                       else tl (history st) @
                              [\<lparr> h_timestamp = t, h_action = processedAction, h_state = newState \<rparr>])
                  \<and> length (history st') \<le> 50))"
proof -
  have init: "maxHistorySize (newRealTimeState opts mws t0) = 50"
    "length (history (newRealTimeState opts mws t0)) \<le> 50"
    by (simp_all add: newRealTimeState_def)
  from performs_history_length [OF init, of opts ops] st
  have len: "length (history st) \<le> 50" and mx: "maxHistorySize st = 50"
    by simp_all
  have "\<exists>processedAction.
                  runMiddleware (middleware st) action (rtState st) = Inr processedAction
                  \<and> rtState st' = newState
                  \<and> last (history st') =
                       \<lparr> h_timestamp = t, h_action = processedAction, h_state = newState \<rparr>
                  \<and> history st' =
                      (if length (history st) < 50
                       then history st @
                              [\<lparr> h_timestamp = t, h_action = processedAction, h_state = newState \<rparr>]
                       else tl (history st) @
                              [\<lparr> h_timestamp = t, h_action = processedAction, h_state = newState \<rparr>])
                  \<and> length (history st') \<le> 50"
    if d: "dispatch opts action t st = (Inr newState, st')" for action t newState st'
  proof -
    from dispatch_success_history [OF d] obtain processedAction where
      mw: "runMiddleware (middleware st) action (rtState st) = Inr processedAction"
      and ns: "rtState st' = newState"
      and h: "history st' =
               (let pushed = history st @
                      [\<lparr> h_timestamp = t, h_action = processedAction, h_state = newState \<rparr>]
                in if length pushed > maxHistorySize st
                   then sliceLast (maxHistorySize st) pushed else pushed)"
      by blast
    let ?e = "\<lparr> h_timestamp = t, h_action = processedAction, h_state = newState \<rparr>"
    have h': "history st' =
                (if length (history st) < 50 then history st @ [?e] else tl (history st) @ [?e])"
    proof (cases "length (history st) < 50")
      case True
      then show ?thesis
        using h mx by (simp add: Let_def)
    next
      case False
      with len have l: "length (history st) = 50"
        by simp
      then have "history st \<noteq> []"
        by auto
      then have "drop 1 (history st @ [?e]) = tl (history st) @ [?e]"
        by (cases "history st") simp_all
      with l show ?thesis
        using h mx by (simp add: Let_def sliceLast_def)
    qed
    have "last (history st') = ?e"
      unfolding h' by simp
    moreover have "length (history st') \<le> 50"
      unfolding h' using len by (auto simp: le_Suc_eq)
    ultimately show ?thesis
      using mw ns h' by blast
  qed
  with len show ?thesis
    by blast
qed

text \<open>
  The theorem on the busy store: its history is full with 50 entries, and one more
  dispatch drops the oldest entry and puts the new one at the end.
\<close>

theorem history_bounded_witness:
  "length (history busyStore) = 50
   \<and> fst (dispatch pollingStore pollingFailed 2 busyStore) = Inr \<lparr> tree = 51, timestamp = 2 \<rparr>
   \<and> last (history (snd (dispatch pollingStore pollingFailed 2 busyStore))) =
        \<lparr> h_timestamp = 2, h_action = pollingFailed, h_state = \<lparr> tree = 51, timestamp = 2 \<rparr> \<rparr>
   \<and> history (snd (dispatch pollingStore pollingFailed 2 busyStore)) =
        tl (history busyStore) @
          [\<lparr> h_timestamp = 2, h_action = pollingFailed, h_state = \<lparr> tree = 51, timestamp = 2 \<rparr> \<rparr>]
   \<and> length (history (snd (dispatch pollingStore pollingFailed 2 busyStore))) \<le> 50"
proof -
  have l: "length (history busyStore) = 50"
    by code_simp
  have f: "fst (dispatch pollingStore pollingFailed 2 busyStore) = Inr \<lparr> tree = 51, timestamp = 2 \<rparr>"
    by code_simp
  have m: "middleware busyStore = []"
    by code_simp
  from f have d: "dispatch pollingStore pollingFailed 2 busyStore =
      (Inr \<lparr> tree = 51, timestamp = 2 \<rparr>, snd (dispatch pollingStore pollingFailed 2 busyStore))"
    by (metis prod.collapse)
  from history_bounded [OF busyStore_def, THEN conjunct2, rule_format, OF d] l m f
  show ?thesis
    by auto
qed

section \<open>Properties of CacheManager\<close>

subsection \<open>What set and get do with failures, expiry and the statistics\<close>

lemma writeItem_result:
  "fst (writeItem f opts item m) = Inr (\<not> (indexedDB (cacheState m) \<and> putFails f))"
  by (simp add: writeItem_def storeInIndexedDB_def Let_def)

lemma writeItem_success:
  fixes m :: "'v cacheManager"
  assumes "writeItem f opts item m = (Inr True, m')"
  shows "memoryCache (cacheState m') =
           (if enableMemoryCache opts
            then AList.update (c_key item) item (memoryCache (cacheState m))
            else memoryCache (cacheState m))
         \<and> database m' =
           (if indexedDB (cacheState m)
            then AList.update (c_key item) item (database m) else database m)
         \<and> indexedDB (cacheState m') = indexedDB (cacheState m)
         \<and> isInitialized (cacheState m') = isInitialized (cacheState m)
         \<and> currentSize (cacheState m') = currentSize (cacheState m) + c_size item
         \<and> itemCount (cacheState m') = itemCount (cacheState m) + 1"
proof -
  from assms have "fst (writeItem f opts item m) = Inr True"
    by simp
  then have ok: "\<not> (indexedDB (cacheState m) \<and> putFails f)"
    by (simp add: writeItem_result)
  from assms have m': "m' = snd (writeItem f opts item m)"
    by simp
  show ?thesis
    unfolding m' using ok
    by (simp add: writeItem_def storeInIndexedDB_def storeInServiceWorkerCache_def Let_def)
qed

lemma cacheSet_success:
  fixes m m' :: "'v cacheManager"
  assumes "cacheSet p f opts time k v so m = (Inr True, m')"
  obtains n and m2 :: "'v cacheManager" where "estimateSize p v = Inr n"
    and "makeRoom f opts time (int n) (ensureInitialized p f opts m) = (None, m2)"
    and "writeItem f opts (makeCacheItem opts time k v so n) m2 = (Inr True, m')"
proof -
  let ?m1 = "ensureInitialized p f opts m"
  from assms obtain n where n: "estimateSize p v = Inr n"
    by (cases "estimateSize p v") (auto simp: cacheSet_def Let_def)
  obtain r m2 where room: "makeRoom f opts time (int n) ?m1 = (r, m2)"
    by (cases "makeRoom f opts time (int n) ?m1")
  with assms n have r: "r = None"
    by (cases r) (auto simp: cacheSet_def Let_def makeCacheItem_def)
  from assms n room r have w: "writeItem f opts (makeCacheItem opts time k v so n) m2 = (Inr True, m')"
    by (simp add: cacheSet_def Let_def makeCacheItem_def)
  from room r have "makeRoom f opts time (int n) ?m1 = (None, m2)"
    by simp
  from n this w show thesis
    by (rule that)
qed

text \<open>
  Claim C6. An entry is expired exactly when \<open>time - timestamp > ttl\<close>. After a
  \<^verbatim>\<open>set\<close> that returned true at time \<open>ts\<close> on a manager that is initialised and
  keeps entries in some tier (the memory cache or the opened database), with nothing done
  to the entry since, a \<^verbatim>\<open>get\<close> at \<open>ts + ttl - 1\<close> in which no storage operation
  fails returns the stored value, and a \<^verbatim>\<open>get\<close> at \<open>ts + ttl + 1\<close> returns null,
  whatever fails. The \<open>ttl\<close> is the entry's: the one given to \<^verbatim>\<open>set\<close>, or the default.
\<close>

theorem cache_ttl_boundary:
  fixes m1 :: "'v cacheManager"
  assumes set: "cacheSet p f opts ts k v so m = (Inr True, m1)"
    and ini: "isInitialized (cacheState m1)"
    and tier: "enableMemoryCache opts \<or> indexedDB (cacheState m1)"
  shows "(\<forall>time item. isExpired time (item :: 'v cacheItem) = (time - c_timestamp item > c_ttl item))
         \<and> fst (cacheGet p noFaults opts (ts + numberOr (o_ttl so) (defaultTTL opts) - 1) k m1) = Inr (Some v)
         \<and> fst (cacheGet p f' opts (ts + numberOr (o_ttl so) (defaultTTL opts) + 1) k m1) = Inr None"
proof -
  from set obtain n and m2 :: "'v cacheManager" where
    w: "writeItem f opts (makeCacheItem opts ts k v so n) m2 = (Inr True, m1)"
    by (rule cacheSet_success)
  have key: "c_key (makeCacheItem opts ts k v so n) = k"
    by (simp add: makeCacheItem_def)
  from writeItem_success [OF w] have
    mem: "memoryCache (cacheState m1) =
               (if enableMemoryCache opts
                then AList.update k (makeCacheItem opts ts k v so n) (memoryCache (cacheState m2))
                else memoryCache (cacheState m2))"
    and db: "database m1 =
               (if indexedDB (cacheState m2)
                then AList.update k (makeCacheItem opts ts k v so n) (database m2) else database m2)"
    and idb: "indexedDB (cacheState m1) = indexedDB (cacheState m2)"
    unfolding key by blast+
  let ?item = "makeCacheItem opts ts k v so n"
  let ?ttl = "numberOr (o_ttl so) (defaultTTL opts)"
  have e1: "\<not> isExpired (ts + ?ttl - 1) ?item" and e2: "isExpired (ts + ?ttl + 1) ?item"
    and val: "c_value ?item = v"
    by (simp_all add: isExpired_def makeCacheItem_def)
  have memk: "enableMemoryCache opts \<Longrightarrow> map_of (memoryCache (cacheState m1)) k = Some ?item"
    using mem by (simp add: update_conv')
  have dbk: "indexedDB (cacheState m1) \<Longrightarrow> map_of (database m1) k = Some ?item"
    using db idb by (simp add: update_conv')
  have en: "ensureInitialized p g opts m1 = m1" for g
    using ini by (simp add: ensureInitialized_def)
  have before: "fst (cacheGet p noFaults opts (ts + ?ttl - 1) k m1) = Inr (Some v)"
  proof (cases "enableMemoryCache opts")
    case True
    with memk e1 val show ?thesis
      by (simp add: cacheGet_def en Let_def)
  next
    case False
    with tier have i: "indexedDB (cacheState m1)"
      by simp
    from False dbk [OF i] e1 val i show ?thesis
      by (simp add: cacheGet_def en Let_def getFromStore_def noFaults_def)
  qed
  have store: "fst (getFromStore f' opts (ts + ?ttl + 1) k m1) = Inr None"
  proof (cases "indexedDB (cacheState m1)")
    case True
    with dbk e2 show ?thesis
      by (simp add: getFromStore_def)
  next
    case False
    then show ?thesis
      by (simp add: getFromStore_def)
  qed
  have after: "fst (cacheGet p f' opts (ts + ?ttl + 1) k m1) = Inr None"
  proof (cases "enableMemoryCache opts")
    case True
    with memk e2 store show ?thesis
      by (simp add: cacheGet_def en Let_def)
  next
    case False
    with store show ?thesis
      by (simp add: cacheGet_def en Let_def)
  qed
  from before after show ?thesis
    by (simp add: isExpired_def)
qed

text \<open>
  The theorem in the browser of the scenario, with the default options: the entry set at
  1000 has the default lifetime of 300000; it is read at 300999 and gone at 301001.
\<close>

theorem cache_ttl_boundary_witness:
  "fst (cacheSet browser noFaults defaultCache 1000 ''news'' (Text ''abc'') plain
         (readyManager defaultCache)) = Inr True
   \<and> isInitialized (cacheState (storedManager defaultCache))
   \<and> enableMemoryCache defaultCache
   \<and> fst (cacheGet browser noFaults defaultCache 300999 ''news'' (storedManager defaultCache)) =
         Inr (Some (Text ''abc''))
   \<and> fst (cacheGet browser (noFaults\<lparr> getFails := True \<rparr>) defaultCache 301001 ''news''
          (storedManager defaultCache)) = Inr None"
proof -
  have r: "fst (cacheSet browser noFaults defaultCache 1000 ''news'' (Text ''abc'') plain
             (readyManager defaultCache)) = Inr True"
    by code_simp
  then have s: "cacheSet browser noFaults defaultCache 1000 ''news'' (Text ''abc'') plain
             (readyManager defaultCache) = (Inr True, storedManager defaultCache)"
    unfolding storedManager_def by (metis prod.collapse)
  have i: "isInitialized (cacheState (storedManager defaultCache))"
    by code_simp
  have e: "enableMemoryCache defaultCache"
    by code_simp
  have t: "numberOr (o_ttl plain) (defaultTTL defaultCache) = 300000"
    by code_simp
  from cache_ttl_boundary [OF s i disjI1 [OF e], of "noFaults\<lparr> getFails := True \<rparr>"] r i e
  show ?thesis
    by (simp add: t)
qed

lemma cleanupExpiredCache_handle:
  "indexedDB (cacheState (snd (cleanupExpiredCache f opts time m))) = indexedDB (cacheState m)"
  by (simp add: cleanupExpiredCache_def Let_def)

lemma cleanupLowPriorityItems_handle:
  "indexedDB (cacheState (snd (cleanupLowPriorityItems f opts m))) = indexedDB (cacheState m)"
  by (simp add: cleanupLowPriorityItems_def Let_def)

lemma cleanupOldestItems_handle:
  "indexedDB (cacheState (snd (cleanupOldestItems f opts m))) = indexedDB (cacheState m)"
  by (simp add: cleanupOldestItems_def Let_def)

lemma makeSpace_handle:
  "indexedDB (cacheState (snd (makeSpace f opts time n m))) = indexedDB (cacheState m)"
proof -
  obtain r1 m1 where c1: "cleanupExpiredCache f opts time m = (r1, m1)"
    by (cases "cleanupExpiredCache f opts time m")
  then have h1: "indexedDB (cacheState m1) = indexedDB (cacheState m)"
    using cleanupExpiredCache_handle [of f opts time m] by simp
  let ?low = "if aboveTarget opts (currentSize (cacheState m1) + n)
              then cleanupLowPriorityItems f opts m1 else (None, m1)"
  obtain r2 m2 where c2: "?low = (r2, m2)"
    by (cases ?low)
  then have h2: "indexedDB (cacheState m2) = indexedDB (cacheState m1)"
    using cleanupLowPriorityItems_handle [of f opts m1] by (auto split: if_splits)
  have h3: "indexedDB (cacheState (snd (cleanupOldestItems f opts m2))) = indexedDB (cacheState m2)"
    by (rule cleanupOldestItems_handle)
  show ?thesis
    using c1 c2 h1 h2 h3
    by (cases r1; cases r2) (simp_all add: makeSpace_def)
qed

lemma makeRoom_handle:
  "indexedDB (cacheState (snd (makeRoom f opts time n m))) = indexedDB (cacheState m)"
  by (simp add: makeRoom_def makeSpace_handle)

lemma cacheSet_result:
  fixes m :: "'v cacheManager"
  assumes "estimateSize p v = Inr n"
  shows "fst (cacheSet p f opts time k v so m) =
           Inr (fst (makeRoom f opts time (int n) (ensureInitialized p f opts m)) = None
                \<and> \<not> (indexedDB (cacheState (ensureInitialized p f opts m)) \<and> putFails f))"
proof -
  let ?m1 = "ensureInitialized p f opts m"
  obtain r m2 where room: "makeRoom f opts time (int n) ?m1 = (r, m2)"
    by (cases "makeRoom f opts time (int n) ?m1")
  then have h: "indexedDB (cacheState m2) = indexedDB (cacheState ?m1)"
    using makeRoom_handle [of f opts time "int n" ?m1] by simp
  show ?thesis
  proof (cases r)
    case None
    with assms room h show ?thesis
      by (simp add: cacheSet_def Let_def makeCacheItem_def writeItem_result)
  next
    case (Some e)
    with assms room show ?thesis
      by (simp add: cacheSet_def Let_def makeCacheItem_def)
  qed
qed

lemma getFromStore_returns: "\<exists>r. fst (getFromStore f opts time k m) = Inr r"
  by (simp add: getFromStore_def Let_def split: option.splits)

lemma getFromStore_fault:
  "getFails f \<or> touchFails f \<Longrightarrow> fst (getFromStore f opts time k m) = Inr None"
  by (auto simp: getFromStore_def Let_def split: option.splits)

lemma cacheGet_returns: "\<exists>r. fst (cacheGet p f opts time k m) = Inr r"
  using getFromStore_returns [of f opts time k "ensureInitialized p f opts m"]
  by (auto simp: cacheGet_def Let_def split: option.splits)

lemma cacheGet_fault:
  assumes "getFails f \<or> touchFails f"
    and "\<not> memoryHit opts time k (ensureInitialized p f opts m)"
  shows "fst (cacheGet p f opts time k m) = Inr None"
  using assms getFromStore_fault [of f opts time k "ensureInitialized p f opts m"]
  by (auto simp: cacheGet_def memoryHit_def Let_def split: option.splits)

text \<open>
  Claim C7, as the code has it. For a value whose size estimate can be made, \<^verbatim>\<open>set\<close>
  never throws, and it returns false exactly when making room fails or the write to the
  opened database fails; a failing open of the database in \<^verbatim>\<open>init\<close> and a failing
  write to the Service Worker cache are logged and ignored, and \<^verbatim>\<open>set\<close> still returns
  true. \<^verbatim>\<open>get\<close> never throws, and a read that the memory cache does not answer
  returns null when the read of the database or the rewrite of the access time fails.
\<close>

theorem storage_failures_contained:
  fixes m :: "'v cacheManager"
  shows "(\<forall>n. estimateSize p v = Inr n \<longrightarrow>
            fst (cacheSet p f opts time k v so m) =
              Inr (fst (makeRoom f opts time (int n) (ensureInitialized p f opts m)) = None
                   \<and> \<not> (indexedDB (cacheState (ensureInitialized p f opts m)) \<and> putFails f)))
         \<and> (\<exists>r. fst (cacheGet p f opts time k m) = Inr r)
         \<and> ((getFails f \<or> touchFails f) \<and> \<not> memoryHit opts time k (ensureInitialized p f opts m) \<longrightarrow>
              fst (cacheGet p f opts time k m) = Inr None)"
  using cacheSet_result [of p v _ f opts time k so m] cacheGet_returns [of p f opts time k m]
    cacheGet_fault [of f opts time k p m]
  by blast

text \<open>
  The theorem in the browser of the scenario: a failing write to the database makes
  \<^verbatim>\<open>set\<close> return false, and with the memory cache disabled a failing read makes
  \<^verbatim>\<open>get\<close> return null where the entry is returned otherwise.
\<close>

theorem storage_failures_contained_witness:
  "estimateSize browser (Text ''abc'') = Inr 5
   \<and> fst (cacheSet browser (noFaults\<lparr> putFails := True \<rparr>) defaultCache 1000 ''news'' (Text ''abc'')
          plain (readyManager defaultCache)) = Inr False
   \<and> fst (cacheGet browser noFaults databaseOnly 2000 ''news'' (storedManager databaseOnly)) =
         Inr (Some (Text ''abc''))
   \<and> fst (cacheGet browser (noFaults\<lparr> getFails := True \<rparr>) databaseOnly 2000 ''news''
          (storedManager databaseOnly)) = Inr None"
proof -
  let ?f = "noFaults\<lparr> putFails := True \<rparr>" and ?g = "noFaults\<lparr> getFails := True \<rparr>"
  have n: "estimateSize browser (Text ''abc'') = Inr 5"
    by code_simp
  have room: "fst (makeRoom ?f defaultCache 1000 (int 5)
                    (ensureInitialized browser ?f defaultCache (readyManager defaultCache))) = None"
    by code_simp
  have idb: "indexedDB (cacheState (ensureInitialized browser ?f defaultCache (readyManager defaultCache)))"
    by code_simp
  have put: "putFails ?f"
    by simp
  have miss: "\<not> memoryHit databaseOnly 2000 ''news''
                (ensureInitialized browser ?g databaseOnly (storedManager databaseOnly))"
    by code_simp
  have g: "getFails ?g"
    by simp
  have ok: "fst (cacheGet browser noFaults databaseOnly 2000 ''news'' (storedManager databaseOnly)) =
         Inr (Some (Text ''abc''))"
    by code_simp
  from storage_failures_contained [where p = browser and v = "Text ''abc''" and f = "?f"
      and opts = defaultCache and time = 1000 and k = "''news''" and so = plain
      and m = "readyManager defaultCache"] n room idb put
  have a: "fst (cacheSet browser ?f defaultCache 1000 ''news'' (Text ''abc'') plain
                 (readyManager defaultCache)) = Inr False"
    by simp
  from storage_failures_contained [where p = browser and v = "Text ''abc''" and f = "?g"
      and opts = databaseOnly and time = 2000 and k = "''news''" and so = plain
      and m = "storedManager databaseOnly"] miss g
  have b: "fst (cacheGet browser ?g databaseOnly 2000 ''news'' (storedManager databaseOnly)) = Inr None"
    by simp
  from n a b ok show ?thesis
    by simp
qed

text \<open>
  Claim C7 as stated fails: with the Service Worker cache enabled and an entry of type
  \<^verbatim>\<open>html\<close>, a failing write to that cache leaves the cache without the entry, and
  \<^verbatim>\<open>set\<close> returns true, not false.
\<close>

theorem storage_failures_contained_counterexample:
  "fst (cacheSet browser (noFaults\<lparr> swFails := True \<rparr>) workerCache 1000 ''page'' (Text ''abc'')
         (plain\<lparr> o_type := Some ''html'' \<rparr>) (readyManager workerCache)) = Inr True
   \<and> swCache (snd (cacheSet browser (noFaults\<lparr> swFails := True \<rparr>) workerCache 1000 ''page''
          (Text ''abc'') (plain\<lparr> o_type := Some ''html'' \<rparr>) (readyManager workerCache))) = []
   \<and> swCache (snd (cacheSet browser noFaults workerCache 1000 ''page''
          (Text ''abc'') (plain\<lparr> o_type := Some ''html'' \<rparr>) (readyManager workerCache))) =
         [(''page'', Text ''abc'')]"
  by code_simp

text \<open>
  The size estimate is made before the \<^verbatim>\<open>try\<close> block of \<^verbatim>\<open>set\<close>: when
  \<^verbatim>\<open>JSON.stringify\<close> throws on the value, \<^verbatim>\<open>set\<close> throws.
\<close>

lemma cacheSet_unserializable:
  "estimateSize p v = Inl e \<Longrightarrow> fst (cacheSet p f opts time k v so m) = Inl e"
  by (simp add: cacheSet_def Let_def)

lemma cacheSet_throws_on_BigInt:
  "fst (cacheSet browser noFaults defaultCache 1000 ''news'' (BigInt 10) plain
         (readyManager defaultCache)) = Inl (Error ''Do not know how to serialize a BigInt'')"
  by code_simp

lemma length_update_present:
  "k \<in> fst ` set al \<Longrightarrow> length (AList.update k v al) = length al"
  by (induction al) auto

text \<open>
  Claim C10. Every \<^verbatim>\<open>set\<close> that returns true ends by adding 1 to \<open>itemCount\<close> and
  the size estimate of the value to \<open>currentSize\<close>, whether or not the key is already
  cached: the statistics after the call are those left by the initialisation and the
  space check at its head plus 1 and the size, and on an initialised manager with room
  these are the statistics before the call. An overwrite leaves the number of entries of
  the memory cache as it was, so the counters then exceed what is cached.
\<close>

theorem set_counts_every_write:
  fixes m m' :: "'v cacheManager"
  assumes "cacheSet p f opts time k v so m = (Inr True, m')"
  shows "\<exists>n (m2 :: 'v cacheManager). estimateSize p v = Inr n
           \<and> makeRoom f opts time (int n) (ensureInitialized p f opts m) = (None, m2)
           \<and> itemCount (cacheState m') = itemCount (cacheState m2) + 1
           \<and> currentSize (cacheState m') = currentSize (cacheState m2) + int n
           \<and> (isInitialized (cacheState m) \<and> \<not> isStorageFull opts m (int n) \<longrightarrow> m2 = m)
           \<and> (enableMemoryCache opts \<and> k \<in> fst ` set (memoryCache (cacheState m2)) \<longrightarrow>
                length (memoryCache (cacheState m')) = length (memoryCache (cacheState m2)))"
proof -
  from assms obtain n and m2 :: "'v cacheManager" where
    n: "estimateSize p v = Inr n"
    and room: "makeRoom f opts time (int n) (ensureInitialized p f opts m) = (None, m2)"
    and w: "writeItem f opts (makeCacheItem opts time k v so n) m2 = (Inr True, m')"
    by (rule cacheSet_success)
  have key: "c_key (makeCacheItem opts time k v so n) = k" and sz: "c_size (makeCacheItem opts time k v so n) = int n"
    by (simp_all add: makeCacheItem_def)
  from writeItem_success [OF w] have
    mem: "memoryCache (cacheState m') =
               (if enableMemoryCache opts
                then AList.update k (makeCacheItem opts time k v so n) (memoryCache (cacheState m2))
                else memoryCache (cacheState m2))"
    and cnt: "itemCount (cacheState m') = itemCount (cacheState m2) + 1"
    and cs: "currentSize (cacheState m') = currentSize (cacheState m2) + int n"
    unfolding key sz by blast+
  have same: "isInitialized (cacheState m) \<and> \<not> isStorageFull opts m (int n) \<longrightarrow> m2 = m"
    using room by (auto simp: ensureInitialized_def makeRoom_def)
  have over: "enableMemoryCache opts \<and> k \<in> fst ` set (memoryCache (cacheState m2)) \<longrightarrow>
                length (memoryCache (cacheState m')) = length (memoryCache (cacheState m2))"
    using mem by (simp add: length_update_present)
  from n room cnt cs same over show ?thesis
    by blast
qed

text \<open>
  The theorem in the browser of the scenario: the key set at 1000 is set again at 2000.
  The memory cache and the database hold one entry each, of 6 bytes, while \<open>itemCount\<close>
  is 2 and \<open>currentSize\<close> is 11.
\<close>

theorem set_counts_every_write_witness:
  "fst (cacheSet browser noFaults defaultCache 2000 ''news'' (Text ''abcd'') plain
         (storedManager defaultCache)) = Inr True
   \<and> itemCount (cacheState (storedManager defaultCache)) = 1
   \<and> currentSize (cacheState (storedManager defaultCache)) = 5
   \<and> itemCount (cacheState (snd (cacheSet browser noFaults defaultCache 2000 ''news'' (Text ''abcd'')
          plain (storedManager defaultCache)))) = 2
   \<and> currentSize (cacheState (snd (cacheSet browser noFaults defaultCache 2000 ''news''
          (Text ''abcd'') plain (storedManager defaultCache)))) = 11
   \<and> length (memoryCache (cacheState (snd (cacheSet browser noFaults defaultCache 2000 ''news''
          (Text ''abcd'') plain (storedManager defaultCache))))) = 1
   \<and> length (database (snd (cacheSet browser noFaults defaultCache 2000 ''news''
          (Text ''abcd'') plain (storedManager defaultCache)))) = 1"
proof -
  let ?m = "storedManager defaultCache"
  let ?m' = "snd (cacheSet browser noFaults defaultCache 2000 ''news'' (Text ''abcd'') plain ?m)"
  have r: "fst (cacheSet browser noFaults defaultCache 2000 ''news'' (Text ''abcd'') plain ?m) = Inr True"
    by code_simp
  then have s: "cacheSet browser noFaults defaultCache 2000 ''news'' (Text ''abcd'') plain ?m =
                  (Inr True, ?m')"
    by (metis prod.collapse)
  have c: "itemCount (cacheState ?m) = 1" "currentSize (cacheState ?m) = 5"
    "isInitialized (cacheState ?m)" "estimateSize browser (Text ''abcd'') = Inr 6"
    "\<not> isStorageFull defaultCache ?m (int 6)"
    by code_simp+
  have l: "length (memoryCache (cacheState ?m')) = 1" "length (database ?m') = 1"
    by code_simp+
  from set_counts_every_write [OF s] obtain n and m2 :: "jsValue cacheManager" where
    "estimateSize browser (Text ''abcd'') = Inr n"
    "itemCount (cacheState ?m') = itemCount (cacheState m2) + 1"
    "currentSize (cacheState ?m') = currentSize (cacheState m2) + int n"
    "isInitialized (cacheState ?m) \<and> \<not> isStorageFull defaultCache ?m (int n) \<longrightarrow> m2 = ?m"
    by blast
  with c have "itemCount (cacheState ?m') = 2" "currentSize (cacheState ?m') = 11"
    by auto
  with r c l show ?thesis
    by simp
qed

end
